theory Spec2Isabelle
  imports Complex_Main
begin

section \<open>Python values, exceptions and results\<close>

text \<open>
  The codecs of \<^verbatim>\<open>error_correctors.py\<close> exchange bitstrings (Python \<^verbatim>\<open>str\<close> values
  made of the characters 0 and 1), strings of 8-bit symbols, and, for the soft decoder,
  lists of floats. A call either returns or raises; a raise is the left summand of the
  result. \<open>ValueError\<close> is a \<^verbatim>\<open>ValueError\<close> raised by \<^verbatim>\<open>error_correctors.py\<close> itself or
  by a builtin it calls (\<^verbatim>\<open>int\<close>, \<^verbatim>\<open>float\<close>, \<^verbatim>\<open>range\<close>), with its message;
  \<open>LibraryError\<close> is an exception, of whatever class, raised inside a call of an imported
  module.
\<close>

datatype exn = ValueError string | LibraryError string

text \<open>
  The argument of \<^verbatim>\<open>decode\<close> is dynamically typed: the code inspects it with
  \<^verbatim>\<open>isinstance\<close>. Floats are carried, compared and never computed with by the
  wrappers, so a float is modelled by the real number it denotes.
\<close>

datatype pyobj =
    PyStr string
  | PyFloat real
  | PyInt int
  | PyList "pyobj list"
  | PyNone

fun is_str :: "pyobj \<Rightarrow> bool" where
  "is_str (PyStr s) = True"
| "is_str x = False"

fun is_list :: "pyobj \<Rightarrow> bool" where
  "is_list (PyList xs) = True"
| "is_list x = False"

fun is_float :: "pyobj \<Rightarrow> bool" where
  "is_float (PyFloat r) = True"
| "is_float x = False"

fun the_float :: "pyobj \<Rightarrow> real" where
  "the_float (PyFloat r) = r"
| "the_float x = 0"

text \<open>A list comprehension over a call that may raise: the first raise ends it.\<close>

fun map_result :: "('a \<Rightarrow> 'e + 'b) \<Rightarrow> 'a list \<Rightarrow> 'e + 'b list" where
  "map_result f [] = Inr []"
| "map_result f (x # xs) =
     (case f x of
        Inl e \<Rightarrow> Inl e
      | Inr y \<Rightarrow> (case map_result f xs of Inl e \<Rightarrow> Inl e | Inr ys \<Rightarrow> Inr (y # ys)))"

text \<open>
  \<^verbatim>\<open>int(c)\<close> and \<^verbatim>\<open>float(c)\<close> of a one-character string: a decimal digit converts,
  any other character raises \<^verbatim>\<open>ValueError\<close>.
\<close>

definition is_digit :: "char \<Rightarrow> bool" where
  "is_digit c = (48 \<le> (of_char c :: nat) \<and> (of_char c :: nat) \<le> 57)"

definition py_int :: "char \<Rightarrow> exn + int" where
  "py_int c =
     (if is_digit c then Inr (int (of_char c) - 48)
      else Inl (ValueError ''invalid literal for int() with base 10''))"

definition py_float :: "char \<Rightarrow> exn + real" where
  "py_float c =
     (if is_digit c then Inr (real (of_char c) - 48)
      else Inl (ValueError ''could not convert string to float''))"

text \<open>\<^verbatim>\<open>str(i)\<close> of an integer: its decimal numeral.\<close>

fun str_nat :: "nat \<Rightarrow> string" where
  "str_nat n =
     (if n < 10 then [char_of (48 + n)]
      else str_nat (n div 10) @ [char_of (48 + n mod 10)])"

declare str_nat.simps [simp del]

definition py_str :: "int \<Rightarrow> string" where
  "py_str i = (if i < 0 then CHR ''-'' # str_nat (nat (- i)) else str_nat (nat i))"

text \<open>
  \<^verbatim>\<open>range(0, stop, step)\<close> for \<open>stop \<ge> 0\<close>: the multiples of a positive \<open>step\<close>
  below \<open>stop\<close>, nothing for a negative step, and \<^verbatim>\<open>ValueError\<close> for step zero.
\<close>

definition py_range :: "nat \<Rightarrow> int \<Rightarrow> exn + nat list" where
  "py_range stop step =
     (if step = 0 then Inl (ValueError ''range() arg 3 must not be zero'')
      else if step < 0 then Inr []
      else Inr (map (\<lambda>j. j * nat step) [0 ..< (stop + nat step - 1) div nat step]))"

text \<open>\<^verbatim>\<open>xs[:j]\<close>: a negative bound counts from the end.\<close>

definition py_prefix :: "'a list \<Rightarrow> int \<Rightarrow> 'a list" where
  "py_prefix xs j = (if j < 0 then take (length xs - nat (- j)) xs else take (nat j) xs)"

text \<open>A bitstring is a string of the characters 0 and 1.\<close>

definition bitstring :: "string \<Rightarrow> bool" where
  "bitstring s = list_all (\<lambda>c. c = CHR ''0'' \<or> c = CHR ''1'') s"

section \<open>The imported libraries\<close>

text \<open>
  \<^verbatim>\<open>error_correctors.py\<close> wraps three modules whose code is not part of the sources:
  \<^verbatim>\<open>unireedsolomon\<close> (\<^verbatim>\<open>RSCoder(n, k)\<close> with \<^verbatim>\<open>encode\<close> and \<^verbatim>\<open>decode\<close>),
  \<^verbatim>\<open>viterbi\<close> (\<^verbatim>\<open>stream_encoder\<close> and \<^verbatim>\<open>Decoder\<close>) and \<^verbatim>\<open>bitstring_utils\<close>
  (\<^verbatim>\<open>bitstring_to_ascii\<close> and \<^verbatim>\<open>ascii_to_bitstring\<close>). The wrappers are modelled
  over an arbitrary implementation of these calls, each of which returns a value or
  raises (the left summand, with the message of the exception):
  \<^item> \<open>RSCoder_encode ext n k chunk\<close> is \<^verbatim>\<open>RSCoder(n, k).encode(chunk)\<close>;
  \<^item> \<open>RSCoder_decode ext n k c\<close> is \<^verbatim>\<open>RSCoder(n, k).decode(c, nostrip = True)[0]\<close>;
  \<^item> \<open>stream_encoder ext k bits\<close> is \<^verbatim>\<open>stream_encoder(k, bits)\<close>, a list of output pairs;
  \<^item> \<open>Decoder ext k pairs hard\<close> is \<^verbatim>\<open>Decoder(k, pairs, hard)\<close>, a list of bits.
\<close>

record externals =
  bitstring_to_ascii :: "string \<Rightarrow> string + string"
  ascii_to_bitstring :: "string \<Rightarrow> string + string"
  RSCoder_encode :: "int \<Rightarrow> int \<Rightarrow> string \<Rightarrow> string + string"
  RSCoder_decode :: "int \<Rightarrow> int \<Rightarrow> string \<Rightarrow> string + string"
  stream_encoder :: "int \<Rightarrow> int list \<Rightarrow> string + (int \<times> int) list"
  Decoder :: "int \<Rightarrow> (real \<times> real) list \<Rightarrow> bool \<Rightarrow> string + int list"

text \<open>The outcome of an imported call as the caller sees it.\<close>

definition from_library :: "string + 'a \<Rightarrow> exn + 'a" where
  "from_library r = (case r of Inl m \<Rightarrow> Inl (LibraryError m) | Inr v \<Rightarrow> Inr v)"

section \<open>ReedSolomon\<close>

text \<open>
  The object holds \<^verbatim>\<open>n\<close> and \<^verbatim>\<open>k\<close>; its \<^verbatim>\<open>coder\<close> is \<^verbatim>\<open>RSCoder(n, k)\<close>, reached
  through \<open>externals\<close>.
\<close>

record ReedSolomon =
  rs_n :: int
  rs_k :: int

text \<open>
  \<^verbatim>\<open>strength\<close> returns \<^verbatim>\<open>(self.n - self.k)/2\<close>. In Python 3 the operator \<^verbatim>\<open>/\<close> on two
  integers is true division and yields a float; halving an integer is exact in binary
  floating point, so the result is the rational \<open>(n - k) / 2\<close>.
\<close>

definition strength :: "ReedSolomon \<Rightarrow> real" where
  "strength self = real_of_int (rs_n self - rs_k self) / 2"

text \<open>
  \<^verbatim>\<open>bitstring_to_codewords\<close>: the bitstring is cut every \<^verbatim>\<open>n * 8\<close> characters and each
  piece is converted to a string of symbols. The last piece can be shorter.
\<close>

definition bitstring_to_codewords ::
  "externals \<Rightarrow> ReedSolomon \<Rightarrow> string \<Rightarrow> exn + string list" where
  "bitstring_to_codewords ext self bits =
     (let chunk_size = rs_n self * 8 in
      case py_range (length bits) chunk_size of
        Inl e \<Rightarrow> Inl e
      | Inr idx \<Rightarrow>
          map_result
            (\<lambda>i. from_library (bitstring_to_ascii ext (take (nat chunk_size) (drop i bits))))
            idx)"

text \<open>\<^verbatim>\<open>codewords_to_bitstring\<close>: the conversions of the codewords, concatenated.\<close>

definition codewords_to_bitstring :: "externals \<Rightarrow> string list \<Rightarrow> exn + string" where
  "codewords_to_bitstring ext codewords =
     (case map_result (\<lambda>c. from_library (ascii_to_bitstring ext c)) codewords of
        Inl e \<Rightarrow> Inl e
      | Inr bs \<Rightarrow> Inr (concat bs))"

text \<open>
  The chunk that iteration \<open>i\<close> of the loop of \<^verbatim>\<open>encode\<close> hands to the coder: the slice
  \<^verbatim>\<open>message_symbols[i:i+k]\<close>, or, when fewer than \<open>k\<close> symbols are left, the rest
  followed by \<^verbatim>\<open>chr(0)\<close> up to length \<open>k\<close>.
\<close>

definition encode_chunk :: "int \<Rightarrow> string \<Rightarrow> nat \<Rightarrow> string" where
  "encode_chunk k message_symbols i =
     (if int i + k > int (length message_symbols)
      then drop i message_symbols @
           replicate (nat (k - (int (length message_symbols) - int i))) (CHR 0x00)
      else take (nat k) (drop i message_symbols))"

definition ReedSolomon_encode :: "externals \<Rightarrow> ReedSolomon \<Rightarrow> string \<Rightarrow> exn + string" where
  "ReedSolomon_encode ext self message_bitstring =
     (case from_library (bitstring_to_ascii ext message_bitstring) of
        Inl e \<Rightarrow> Inl e
      | Inr message_symbols \<Rightarrow>
          (case py_range (length message_symbols) (rs_k self) of
             Inl e \<Rightarrow> Inl e
           | Inr idx \<Rightarrow>
               (case map_result
                       (\<lambda>i. from_library
                              (RSCoder_encode ext (rs_n self) (rs_k self)
                                 (encode_chunk (rs_k self) message_symbols i))) idx of
                  Inl e \<Rightarrow> Inl e
                | Inr codewords \<Rightarrow> codewords_to_bitstring ext codewords)))"

text \<open>
  The loop of \<^verbatim>\<open>decode\<close> over the codewords, with its two variables
  \<^verbatim>\<open>recovered_bitstring\<close> and \<^verbatim>\<open>correctable\<close>. A raise of the coder is caught: the first
  \<open>k\<close> symbols of the codeword stand in and the flag drops. The conversion of the
  recovered symbols is outside the \<^verbatim>\<open>try\<close>.
\<close>

fun decode_loop ::
  "externals \<Rightarrow> ReedSolomon \<Rightarrow> string list \<Rightarrow> string \<Rightarrow> bool \<Rightarrow> exn + (string \<times> bool)" where
  "decode_loop ext self [] recovered_bitstring correctable =
     Inr (recovered_bitstring, correctable)"
| "decode_loop ext self (c # cs) recovered_bitstring correctable =
     (let (recovered_chunk_symbols, correctable') =
            (case RSCoder_decode ext (rs_n self) (rs_k self) c of
               Inr syms \<Rightarrow> (syms, correctable)
             | Inl m \<Rightarrow> (py_prefix c (rs_k self), False))
      in case from_library (ascii_to_bitstring ext recovered_chunk_symbols) of
           Inl e \<Rightarrow> Inl e
         | Inr recovered_chunk_bitstring \<Rightarrow>
             decode_loop ext self cs (recovered_bitstring @ recovered_chunk_bitstring)
               correctable')"

definition ReedSolomon_decode ::
  "externals \<Rightarrow> ReedSolomon \<Rightarrow> string \<Rightarrow> exn + (string \<times> bool)" where
  "ReedSolomon_decode ext self encoded_bitstring =
     (case bitstring_to_codewords ext self encoded_bitstring of
        Inl e \<Rightarrow> Inl e
      | Inr codewords \<Rightarrow> decode_loop ext self codewords [] True)"

section \<open>Viterbi\<close>

record Viterbi =
  v_k :: int
  v_soft :: bool

text \<open>
  \<^verbatim>\<open>encode\<close>: the characters are read with \<^verbatim>\<open>int\<close>, the stream encoder returns one pair
  per step, and the two components of every pair are written with \<^verbatim>\<open>str\<close>.
\<close>

definition Viterbi_encode :: "externals \<Rightarrow> Viterbi \<Rightarrow> string \<Rightarrow> exn + string" where
  "Viterbi_encode ext self input_bitstring =
     (case map_result py_int input_bitstring of
        Inl e \<Rightarrow> Inl e
      | Inr input_stream \<Rightarrow>
          (case from_library (stream_encoder ext (v_k self) input_stream) of
             Inl e \<Rightarrow> Inl e
           | Inr list_output \<Rightarrow>
               Inr (concat (map (\<lambda>el. py_str (fst el) @ py_str (snd el)) list_output))))"

text \<open>
  The type checks that open \<^verbatim>\<open>Viterbi.decode\<close> and \<^verbatim>\<open>ConcatenatedViterbiRS.decode\<close>:
  the \<^verbatim>\<open>ValueError\<close> they raise, if any. The messages are the fixed parts of the
  source's format strings.
\<close>

definition check_input :: "bool \<Rightarrow> pyobj \<Rightarrow> exn option" where
  "check_input soft inp =
     (if soft then
        (if \<not> is_list inp
         then Some (ValueError ''Input must be a list of floats if using soft decoding.'')
         else if \<not> (case inp of PyList xs \<Rightarrow> list_all is_float xs | _ \<Rightarrow> False)
         then Some (ValueError ''All elements in the input list must be floats.'')
         else None)
      else
        (if \<not> is_str inp
         then Some (ValueError ''Input must be a string of 0s and 1s if using hard decoding.'')
         else None))"

text \<open>
  After the checks a string is replaced by the list of the floats of its characters
  (\<^verbatim>\<open>float(i)\<close> may raise); a list of floats is used as it is.
\<close>

fun to_floats :: "pyobj \<Rightarrow> exn + real list" where
  "to_floats (PyStr s) = map_result py_float s"
| "to_floats (PyList xs) = Inr (map the_float xs)"
| "to_floats x = Inr []"

text \<open>
  The loop \<^verbatim>\<open>for i in range(0, len(input), 2)\<close> that pairs \<^verbatim>\<open>input[i]\<close> with
  \<^verbatim>\<open>input[i + 1]\<close>; it runs on lists of even length only.
\<close>

fun pair_up :: "'a list \<Rightarrow> ('a \<times> 'a) list" where
  "pair_up (a # b # xs) = (a, b) # pair_up xs"
| "pair_up xs = []"

text \<open>
  \<^verbatim>\<open>decode\<close>. The library decoder runs only on an input of even length that is at least
  \<open>k\<close> long, inside a bare \<^verbatim>\<open>except\<close>. Without a decoded list the result is
  \<^verbatim>\<open>"0" * (len(input) - self.k)\<close>: a repetition count below zero gives the empty
  string. (The message the method prints in that case is not part of the result.)
\<close>

definition Viterbi_decode :: "externals \<Rightarrow> Viterbi \<Rightarrow> pyobj \<Rightarrow> exn + (string \<times> bool)" where
  "Viterbi_decode ext self inp =
     (case check_input (v_soft self) inp of
        Some e \<Rightarrow> Inl e
      | None \<Rightarrow>
          (case to_floats inp of
             Inl e \<Rightarrow> Inl e
           | Inr input \<Rightarrow>
               (let dec =
                      (if length input mod 2 \<noteq> 0 \<or> int (length input) < v_k self then None
                       else (case Decoder ext (v_k self) (pair_up input) (\<not> v_soft self) of
                               Inl m \<Rightarrow> None
                             | Inr dec_list \<Rightarrow> Some dec_list))
                in case dec of
                     None \<Rightarrow>
                       Inr (replicate (nat (int (length input) - v_k self)) (CHR ''0''), False)
                   | Some dec_list \<Rightarrow> Inr (concat (map py_str dec_list), True))))"

section \<open>ConcatenatedViterbiRS\<close>

record ConcatenatedViterbiRS =
  c_soft :: bool
  viterbi_coder :: Viterbi
  rs_coder :: ReedSolomon

text \<open>The constructor \<^verbatim>\<open>__init__(self, v_k, n, rs_k, soft)\<close>.\<close>

definition ConcatenatedViterbiRS_init ::
  "int \<Rightarrow> int \<Rightarrow> int \<Rightarrow> bool \<Rightarrow> ConcatenatedViterbiRS" where
  "ConcatenatedViterbiRS_init vk n rsk soft =
     \<lparr>c_soft = soft,
      viterbi_coder = \<lparr>v_k = vk, v_soft = soft\<rparr>,
      rs_coder = \<lparr>rs_n = n, rs_k = rsk\<rparr>\<rparr>"

text \<open>
  A value a Python call returns: one string, or a tuple of two strings. \<^verbatim>\<open>encode\<close>
  computes \<^verbatim>\<open>rs_encoded\<close> and \<^verbatim>\<open>final_encoded\<close> and executes \<^verbatim>\<open>return final_encoded\<close>.
\<close>

datatype returned = One string | Two string string

definition ConcatenatedViterbiRS_encode ::
  "externals \<Rightarrow> ConcatenatedViterbiRS \<Rightarrow> string \<Rightarrow> exn + returned" where
  "ConcatenatedViterbiRS_encode ext self input_bitstring =
     (case ReedSolomon_encode ext (rs_coder self) input_bitstring of
        Inl e \<Rightarrow> Inl e
      | Inr rs_encoded \<Rightarrow>
          (case Viterbi_encode ext (viterbi_coder self) rs_encoded of
             Inl e \<Rightarrow> Inl e
           | Inr final_encoded \<Rightarrow> Inr (One final_encoded)))"

definition ConcatenatedViterbiRS_decode ::
  "externals \<Rightarrow> ConcatenatedViterbiRS \<Rightarrow> pyobj \<Rightarrow> exn + (string \<times> bool)" where
  "ConcatenatedViterbiRS_decode ext self inp =
     (case check_input (c_soft self) inp of
        Some e \<Rightarrow> Inl e
      | None \<Rightarrow>
          (case Viterbi_decode ext (viterbi_coder self) inp of
             Inl e \<Rightarrow> Inl e
           | Inr (pred_rs_encoded, vit_corectable) \<Rightarrow>
               (case ReedSolomon_decode ext (rs_coder self) pred_rs_encoded of
                  Inl e \<Rightarrow> Inl e
                | Inr (decoded_bitstring, rs_correctable) \<Rightarrow>
                    Inr (decoded_bitstring, vit_corectable \<and> rs_correctable))))"

section \<open>An instance of the imported calls\<close>

text \<open>
  The theorems below hold for every implementation \<open>ext\<close> of the imported calls that
  meets the stated contract. To evaluate the wrappers on concrete inputs, \<open>reference\<close>
  is one such implementation.
\<close>

subsection \<open>Bitstring conversion\<close>

text \<open>
  Modelled from the spec: \<^verbatim>\<open>bitstring_utils\<close> is not among the sources. The spec has a
  symbol be a fixed-width 8-bit value and a bitstring a sequence of the characters 0
  and 1, converted to symbols and back at the Reed-Solomon boundary. Here eight
  characters, most significant bit first, make one symbol; a shorter last group is
  read as the shorter binary numeral; a character other than 0 and 1 raises.
\<close>

definition bit_char :: "bool \<Rightarrow> char" where
  "bit_char b = (if b then CHR ''1'' else CHR ''0'')"

fun byte_bits :: "char \<Rightarrow> string" where
  "byte_bits (Char b0 b1 b2 b3 b4 b5 b6 b7) = map bit_char [b7, b6, b5, b4, b3, b2, b1, b0]"

definition symbol_of_bits :: "string \<Rightarrow> char" where
  "symbol_of_bits chunk =
     (let p = replicate (8 - length chunk) (CHR ''0'') @ chunk in
      Char (p ! 7 = CHR ''1'') (p ! 6 = CHR ''1'') (p ! 5 = CHR ''1'') (p ! 4 = CHR ''1'')
           (p ! 3 = CHR ''1'') (p ! 2 = CHR ''1'') (p ! 1 = CHR ''1'') (p ! 0 = CHR ''1''))"

fun groups_of_8 :: "string \<Rightarrow> string list" where
  "groups_of_8 s = (if s = [] then [] else take 8 s # groups_of_8 (drop 8 s))"

declare groups_of_8.simps [simp del]

definition bitstring_to_ascii_ref :: "string \<Rightarrow> string + string" where
  "bitstring_to_ascii_ref s =
     map_result (\<lambda>chunk. if bitstring chunk then Inr (symbol_of_bits chunk)
                          else Inl ''invalid literal for int() with base 2'')
       (groups_of_8 s)"

definition ascii_to_bitstring_ref :: "string \<Rightarrow> string + string" where
  "ascii_to_bitstring_ref s = Inr (concat (map byte_bits s))"

subsection \<open>A systematic block code\<close>

text \<open>
  An instance of the interface of \<^verbatim>\<open>RSCoder(n, k)\<close>, not the library's algorithm: the
  codeword of a \<open>k\<close>-symbol message is the message followed by \<open>n - k\<close> copies of the
  exclusive or of its symbols. \<^verbatim>\<open>encode\<close> raises on a message longer than \<open>k\<close> and
  left-pads a shorter one with zero symbols, as the library documents. \<^verbatim>\<open>decode\<close>
  returns the first \<open>k\<close> symbols of a word of length \<open>n\<close> whose check symbols agree and
  raises otherwise: it detects errors and corrects none.
\<close>

definition xor_char :: "char \<Rightarrow> char \<Rightarrow> char" where
  "xor_char a b =
     (case a of Char a0 a1 a2 a3 a4 a5 a6 a7 \<Rightarrow>
      case b of Char b0 b1 b2 b3 b4 b5 b6 b7 \<Rightarrow>
        Char (a0 \<noteq> b0) (a1 \<noteq> b1) (a2 \<noteq> b2) (a3 \<noteq> b3)
             (a4 \<noteq> b4) (a5 \<noteq> b5) (a6 \<noteq> b6) (a7 \<noteq> b7))"

definition checksum :: "string \<Rightarrow> char" where
  "checksum m = foldr xor_char m (CHR 0x00)"

definition RSCoder_encode_ref :: "int \<Rightarrow> int \<Rightarrow> string \<Rightarrow> string + string" where
  "RSCoder_encode_ref n k message =
     (if int (length message) > k then Inl ''Message length is max k''
      else (let m = replicate (nat k - length message) (CHR 0x00) @ message
            in Inr (m @ replicate (nat (n - k)) (checksum m))))"

definition RSCoder_decode_ref :: "int \<Rightarrow> int \<Rightarrow> string \<Rightarrow> string + string" where
  "RSCoder_decode_ref n k r =
     (if int (length r) = n \<and> 0 \<le> k \<and> k \<le> n \<and>
         drop (nat k) r = replicate (nat (n - k)) (checksum (take (nat k) r))
      then Inr (take (nat k) r)
      else Inl ''Could not locate the errors'')"

subsection \<open>Convolutional encoder and Viterbi decoder\<close>

text \<open>
  Modelled from the spec: the module \<^verbatim>\<open>viterbi\<close> is not among the sources. The encoder
  starts from the all-zero register; for every input bit it shifts the bit in and
  emits the two exclusive ors of the tapped register bits. The spec fixes a generator
  pair for \<open>k = 2\<close> and for \<open>k = 5\<close> without listing the taps; the pairs here are
  \<open>(3, 1)\<close> and \<open>(23, 35)\<close> in octal. A register is a list of \<open>k\<close> bits, newest first.
\<close>

fun generators :: "int \<Rightarrow> (bool list \<times> bool list) option" where
  "generators k =
     (if k = 2 then Some ([True, True], [True, False])
      else if k = 5 then Some ([True, False, False, True, True],
                               [True, True, True, False, True])
      else None)"

definition tap_xor :: "bool list \<Rightarrow> bool list \<Rightarrow> int" where
  "tap_xor g reg = (if odd (length (filter (\<lambda>(t, b). t \<and> b) (zip g reg))) then 1 else 0)"

definition conv_output :: "bool list \<times> bool list \<Rightarrow> bool list \<Rightarrow> int \<Rightarrow> int \<times> int" where
  "conv_output g st b = (tap_xor (fst g) ((b = 1) # st), tap_xor (snd g) ((b = 1) # st))"

definition conv_next :: "bool list \<Rightarrow> int \<Rightarrow> bool list" where
  "conv_next st b = butlast ((b = 1) # st)"

fun conv_run :: "bool list \<times> bool list \<Rightarrow> bool list \<Rightarrow> int list \<Rightarrow> (int \<times> int) list" where
  "conv_run g st [] = []"
| "conv_run g st (b # bs) = conv_output g st b # conv_run g (conv_next st b) bs"

definition stream_encoder_ref :: "int \<Rightarrow> int list \<Rightarrow> string + (int \<times> int) list" where
  "stream_encoder_ref k input_stream =
     (case generators k of
        None \<Rightarrow> Inl ''unsupported constraint length''
      | Some g \<Rightarrow> Inr (conv_run g (replicate (nat k - 1) False) input_stream))"

text \<open>
  The decoder keeps, for every reachable state, the least cumulative metric and the
  input bits of the path that achieves it. It starts with the all-zero state at metric
  \<open>0\<close>. At each stage every survivor is extended by the bits \<open>0\<close> and \<open>1\<close>; a
  destination keeps the first candidate of least metric in enumeration order. The
  result is the path of the first final state of least metric. The branch metric is
  the Hamming distance in hard mode and the squared distance to the antipodal symbols
  (\<open>1\<close> for bit 0, \<open>-1\<close> for bit 1) in soft mode.
\<close>

definition branch_metric :: "bool \<Rightarrow> int \<times> int \<Rightarrow> real \<times> real \<Rightarrow> real" where
  "branch_metric hard expected observed =
     (if hard then
        (if real_of_int (fst expected) = fst observed then 0 else 1) +
        (if real_of_int (snd expected) = snd observed then 0 else 1)
      else
        (fst observed - (1 - 2 * real_of_int (fst expected)))\<^sup>2 +
        (snd observed - (1 - 2 * real_of_int (snd expected)))\<^sup>2)"

type_synonym survivor = "bool list \<times> real \<times> int list"

fun relax :: "survivor \<Rightarrow> survivor list \<Rightarrow> survivor list" where
  "relax c [] = [c]"
| "relax c (d # ds) =
     (if fst c = fst d then (if fst (snd c) < fst (snd d) then c # ds else d # ds)
      else d # relax c ds)"

definition extend :: "bool list \<times> bool list \<Rightarrow> bool \<Rightarrow> real \<times> real \<Rightarrow> survivor \<Rightarrow> int \<Rightarrow> survivor" where
  "extend g hard observed c b =
     (conv_next (fst c) b,
      fst (snd c) + branch_metric hard (conv_output g (fst c) b) observed,
      snd (snd c) @ [b])"

definition viterbi_stage ::
  "bool list \<times> bool list \<Rightarrow> bool \<Rightarrow> survivor list \<Rightarrow> real \<times> real \<Rightarrow> survivor list" where
  "viterbi_stage g hard survivors observed =
     foldl (\<lambda>table c. relax c table) []
       (concat (map (\<lambda>c. [extend g hard observed c 0, extend g hard observed c 1]) survivors))"

fun best :: "survivor \<Rightarrow> survivor list \<Rightarrow> survivor" where
  "best c [] = c"
| "best c (d # ds) = best (if fst (snd d) < fst (snd c) then d else c) ds"

definition Decoder_ref :: "int \<Rightarrow> (real \<times> real) list \<Rightarrow> bool \<Rightarrow> string + int list" where
  "Decoder_ref k input_stream hard =
     (case generators k of
        None \<Rightarrow> Inl ''unsupported constraint length''
      | Some g \<Rightarrow>
          (case foldl (viterbi_stage g hard) [(replicate (nat k - 1) False, 0, [])] input_stream of
             [] \<Rightarrow> Inl ''empty trellis''
           | c # cs \<Rightarrow> Inr (snd (snd (best c cs)))))"

definition reference :: externals where
  "reference =
     \<lparr>bitstring_to_ascii = bitstring_to_ascii_ref,
      ascii_to_bitstring = ascii_to_bitstring_ref,
      RSCoder_encode = RSCoder_encode_ref,
      RSCoder_decode = RSCoder_decode_ref,
      stream_encoder = stream_encoder_ref,
      Decoder = Decoder_ref\<rparr>"

section \<open>Notions used in the statements\<close>

text \<open>\<^verbatim>\<open>len(input)\<close> of the argument of \<^verbatim>\<open>decode\<close>.\<close>

fun py_len :: "pyobj \<Rightarrow> nat" where
  "py_len (PyStr s) = length s"
| "py_len (PyList xs) = length xs"
| "py_len x = 0"

text \<open>
  An observed sequence for a mode: a list of floats in soft mode; in hard mode a string
  whose characters \<^verbatim>\<open>float\<close> converts (the decimal digits, among them 0 and 1).
\<close>

definition observed :: "bool \<Rightarrow> pyobj \<Rightarrow> bool" where
  "observed soft inp =
     (if soft then (case inp of PyList xs \<Rightarrow> list_all is_float xs | _ \<Rightarrow> False)
      else (case inp of PyStr s \<Rightarrow> list_all is_digit s | _ \<Rightarrow> False))"

text \<open>
  The wrong type for a mode: in soft mode anything but a list whose elements are all
  floats, in hard mode anything but a string.
\<close>

definition wrong_type :: "bool \<Rightarrow> pyobj \<Rightarrow> bool" where
  "wrong_type soft inp =
     (if soft then (case inp of PyList xs \<Rightarrow> \<not> list_all is_float xs | _ \<Rightarrow> True)
      else (case inp of PyStr s \<Rightarrow> False | _ \<Rightarrow> True))"

text \<open>The three errors that the type checks of \<^verbatim>\<open>decode\<close> raise.\<close>

definition validation_error :: "exn \<Rightarrow> bool" where
  "validation_error e =
     (e = ValueError ''Input must be a list of floats if using soft decoding.'' \<or>
      e = ValueError ''All elements in the input list must be floats.'' \<or>
      e = ValueError ''Input must be a string of 0s and 1s if using hard decoding.'')"

text \<open>
  What the wrappers rely on in \<^verbatim>\<open>bitstring_utils\<close>: \<^verbatim>\<open>ascii_to_bitstring\<close> returns eight
  characters 0 or 1 per symbol and converts a concatenation piecewise;
  \<^verbatim>\<open>bitstring_to_ascii\<close> returns on every bitstring; and the two invert each other on
  strings of symbols and on bitstrings of whole bytes.
\<close>

definition bitstring_utils_contract :: "externals \<Rightarrow> bool" where
  "bitstring_utils_contract ext =
     ((\<forall>s. \<exists>b. ascii_to_bitstring ext s = Inr b \<and> length b = 8 * length s \<and> bitstring b) \<and>
      (\<forall>s t a b. ascii_to_bitstring ext s = Inr a \<and> ascii_to_bitstring ext t = Inr b \<longrightarrow>
                 ascii_to_bitstring ext (s @ t) = Inr (a @ b)) \<and>
      (\<forall>x. bitstring x \<longrightarrow> (\<exists>s. bitstring_to_ascii ext x = Inr s)) \<and>
      (\<forall>s b. ascii_to_bitstring ext s = Inr b \<longrightarrow> bitstring_to_ascii ext b = Inr s) \<and>
      (\<forall>x s. bitstring x \<and> 8 dvd length x \<and> bitstring_to_ascii ext x = Inr s \<longrightarrow>
             ascii_to_bitstring ext s = Inr x))"

text \<open>
  What the wrappers rely on in \<^verbatim>\<open>RSCoder(n, k)\<close>. The code is systematic: \<^verbatim>\<open>encode\<close> of a
  message of \<open>k\<close> symbols returns \<open>n\<close> symbols that begin with the message. \<^verbatim>\<open>decode\<close>
  inverts \<^verbatim>\<open>encode\<close> on an unmodified codeword. With \<^verbatim>\<open>nostrip = True\<close> a successful
  \<^verbatim>\<open>decode\<close> of a word of \<open>n\<close> symbols returns \<open>k\<close> symbols.
\<close>

definition coder_systematic :: "externals \<Rightarrow> int \<Rightarrow> int \<Rightarrow> bool" where
  "coder_systematic ext n k =
     (\<forall>m. length m = nat k \<longrightarrow>
          (\<exists>c. RSCoder_encode ext n k m = Inr c \<and> length c = nat n \<and> take (nat k) c = m))"

definition coder_roundtrip :: "externals \<Rightarrow> int \<Rightarrow> int \<Rightarrow> bool" where
  "coder_roundtrip ext n k =
     (\<forall>m. length m = nat k \<longrightarrow>
          (\<exists>c. RSCoder_encode ext n k m = Inr c \<and> length c = nat n \<and>
               RSCoder_decode ext n k c = Inr m))"


text \<open>
  The symbols that \<^verbatim>\<open>ReedSolomon.decode\<close> takes from a codeword: the coder's result, or
  the first \<open>k\<close> symbols of the codeword when the coder raises.
\<close>

definition recovered :: "externals \<Rightarrow> ReedSolomon \<Rightarrow> string \<Rightarrow> string" where
  "recovered ext self c =
     (case RSCoder_decode ext (rs_n self) (rs_k self) c of
        Inr syms \<Rightarrow> syms
      | Inl m \<Rightarrow> py_prefix c (rs_k self))"

definition corrected :: "externals \<Rightarrow> ReedSolomon \<Rightarrow> string \<Rightarrow> bool" where
  "corrected ext self c =
     (case RSCoder_decode ext (rs_n self) (rs_k self) c of Inr syms \<Rightarrow> True | Inl m \<Rightarrow> False)"

text \<open>
  What the wrappers rely on in the module \<^verbatim>\<open>viterbi\<close>, for a list of bits long enough to
  pass the length check of \<^verbatim>\<open>Viterbi.decode\<close>: \<^verbatim>\<open>stream_encoder\<close> returns one pair of
  bits per input bit, and the hard-decision \<^verbatim>\<open>Decoder\<close> returns the input bits on the
  unmodified pairs.
\<close>

definition binary :: "int list \<Rightarrow> bool" where
  "binary bits = list_all (\<lambda>b. b = 0 \<or> b = 1) bits"

definition viterbi_contract :: "externals \<Rightarrow> int \<Rightarrow> bool" where
  "viterbi_contract ext k =
     (\<forall>bits. binary bits \<and> k \<le> 2 * int (length bits) \<longrightarrow>
        (\<exists>out. stream_encoder ext k bits = Inr out \<and> length out = length bits \<and>
              binary (map fst out) \<and> binary (map snd out) \<and>
              Decoder ext k (map (\<lambda>p. (real_of_int (fst p), real_of_int (snd p))) out) True =
                Inr bits))"

text \<open>
  The bit that \<^verbatim>\<open>int\<close> reads from a character of a bitstring, and the string that
  \<^verbatim>\<open>Viterbi.encode\<close> writes for a list of output pairs.
\<close>

definition bit_of :: "char \<Rightarrow> int" where
  "bit_of c = (if c = CHR ''1'' then 1 else 0)"

definition written :: "(int \<times> int) list \<Rightarrow> string" where
  "written out = concat (map (\<lambda>el. py_str (fst el) @ py_str (snd el)) out)"

text \<open>
  A table of survivors of the instance's decoder is consistent with a transmitted path
  when no metric is negative, a survivor of metric zero carries that path and its final
  state, and some survivor has metric zero.
\<close>

definition consistent :: "int list \<Rightarrow> bool list \<Rightarrow> survivor list \<Rightarrow> bool" where
  "consistent path st table =
     (list_all (\<lambda>c. 0 \<le> fst (snd c) \<and> (fst (snd c) = 0 \<longrightarrow> snd (snd c) = path \<and> fst c = st))
        table \<and>
      list_ex (\<lambda>c. fst (snd c) = 0) table)"

section \<open>ReedSolomon.strength\<close>

text \<open>
  C7. For a valid configuration \<open>1 \<le> k < n \<le> 255\<close> the claim has \<^verbatim>\<open>strength()\<close> return
  the integer \<open>\<lfloor>(n - k) / 2\<rfloor>\<close>, as the docstring of the method promises an \<^verbatim>\<open>int\<close>.
  At \<open>n = 5\<close>, \<open>k = 2\<close> the method returns \<open>3 / 2\<close>, which is not the floor \<open>1\<close>.
\<close>

theorem strength_5_2_not_floor:
  "strength \<lparr>rs_n = 5, rs_k = 2\<rparr> = 3 / 2 \<and>
   strength \<lparr>rs_n = 5, rs_k = 2\<rparr> \<noteq> real_of_int ((5 - 2) div 2)"
  by (simp add: strength_def)

section \<open>Viterbi.decode on inputs it does not hand to the decoder\<close>

lemma map_result_Inl: "map_result f xs = Inl e \<Longrightarrow> \<exists>x \<in> set xs. f x = Inl e"
  by (induction xs) (auto split: sum.splits)

lemma map_result_py_float:
  "list_all is_digit s \<Longrightarrow> \<exists>fs. map_result py_float s = Inr fs \<and> length fs = length s"
  by (induction s) (auto simp: py_float_def)

lemma observed_check: "observed soft inp \<Longrightarrow> check_input soft inp = None"
  by (cases inp) (auto simp: observed_def check_input_def split: if_splits)

lemma observed_to_floats:
  "observed soft inp \<Longrightarrow> \<exists>fs. to_floats inp = Inr fs \<and> length fs = py_len inp"
  by (cases inp) (auto simp: observed_def dest: map_result_py_float split: if_splits)

text \<open>
  C4, as amended. For every observed sequence of the decoder's mode whose length is odd
  or less than \<open>k\<close>, \<^verbatim>\<open>decode\<close> returns, whatever the library decoder would do (it is not
  called), the flag \<open>False\<close> and a string of zeros of length \<open>max 0 (len - k)\<close>.
\<close>

theorem Viterbi_decode_invalid_shape:
  assumes "observed (v_soft self) inp"
      and "py_len inp mod 2 \<noteq> 0 \<or> int (py_len inp) < v_k self"
  shows "Viterbi_decode ext self inp =
           Inr (replicate (nat (max 0 (int (py_len inp) - v_k self))) (CHR ''0''), False)"
proof -
  obtain fs where fs: "to_floats inp = Inr fs" "length fs = py_len inp"
    using observed_to_floats [OF assms(1)] by blast
  have "nat (max 0 (int (py_len inp) - v_k self)) = nat (int (py_len inp) - v_k self)"
    by simp
  with fs assms(2) observed_check [OF assms(1)] show ?thesis
    by (simp add: Viterbi_decode_def)
qed

theorem Viterbi_decode_invalid_shape_witness:
  "Viterbi_decode reference \<lparr>v_k = 5, v_soft = False\<rparr> (PyStr ''0110101'') = Inr (''00'', False)"
proof -
  have a: "observed (v_soft \<lparr>v_k = 5, v_soft = False\<rparr>) (PyStr ''0110101'')"
    by code_simp
  have b: "py_len (PyStr ''0110101'') mod 2 \<noteq> 0 \<or>
           int (py_len (PyStr ''0110101'')) < v_k \<lparr>v_k = 5, v_soft = False\<rparr>"
    by simp
  have c: "replicate (nat (max 0 (int (py_len (PyStr ''0110101'')) - v_k \<lparr>v_k = 5, v_soft = False\<rparr>)))
             (CHR ''0'') = ''00''"
    by code_simp
  show ?thesis
    using Viterbi_decode_invalid_shape [OF a b, of reference] unfolding c .
qed

text \<open>
  C4, as stated, has the length of the zero string equal \<open>len - k\<close>. The hard decoder
  with \<open>k = 5\<close> on the two-character string 01 returns the empty string, whose length
  is not \<open>2 - 5\<close>.
\<close>

theorem Viterbi_decode_length_counterexample:
  "observed False (PyStr ''01'') \<and> int (py_len (PyStr ''01'')) < 5 \<and>
   Viterbi_decode reference \<lparr>v_k = 5, v_soft = False\<rparr> (PyStr ''01'') = Inr ([], False) \<and>
   int (length ([] :: string)) \<noteq> int (py_len (PyStr ''01'')) - 5"
  by code_simp

text \<open>
  C10. For every observed sequence that is odd or shorter than \<open>k\<close> and whose length is at
  most \<open>k\<close>, the repetition count \<open>len - k\<close> is not positive: \<^verbatim>\<open>decode\<close> returns the
  empty string, of length \<open>max 0 (len - k)\<close>, and the flag \<open>False\<close>; it does not raise.
\<close>

theorem Viterbi_decode_short_is_empty:
  assumes "observed (v_soft self) inp"
      and "py_len inp mod 2 \<noteq> 0 \<or> int (py_len inp) < v_k self"
      and "int (py_len inp) \<le> v_k self"
  shows "\<exists>out. Viterbi_decode ext self inp = Inr (out, False) \<and> out = [] \<and>
           int (length out) = max 0 (int (py_len inp) - v_k self)"
proof -
  obtain fs where fs: "to_floats inp = Inr fs" "length fs = py_len inp"
    using observed_to_floats [OF assms(1)] by blast
  with assms(2,3) observed_check [OF assms(1)] show ?thesis
    by (simp add: Viterbi_decode_def)
qed

theorem Viterbi_decode_short_is_empty_witness:
  "Viterbi_decode reference \<lparr>v_k = 5, v_soft = True\<rparr>
     (PyList [PyFloat 0.9, PyFloat (- 0.8), PyFloat 1]) = Inr ([], False)"
proof -
  have a: "observed True (PyList [PyFloat 0.9, PyFloat (- 0.8), PyFloat 1])"
    by (simp add: observed_def)
  show ?thesis
    using Viterbi_decode_short_is_empty [of "\<lparr>v_k = 5, v_soft = True\<rparr>"
        "PyList [PyFloat 0.9, PyFloat (- 0.8), PyFloat 1]" reference] a
    by simp
qed

section \<open>The type checks of decode\<close>

lemma check_input_wrong: "wrong_type soft inp \<longleftrightarrow> (\<exists>e. check_input soft inp = Some e)"
  by (cases inp) (auto simp: wrong_type_def check_input_def split: if_splits)

lemma check_input_validation: "check_input soft inp = Some e \<Longrightarrow> validation_error e"
  by (auto simp: check_input_def validation_error_def split: if_splits)

lemma py_float_not_validation: "py_float c = Inl e \<Longrightarrow> \<not> validation_error e"
  by (auto simp: py_float_def validation_error_def split: if_splits)

lemma to_floats_not_validation: "to_floats inp = Inl e \<Longrightarrow> \<not> validation_error e"
  by (cases inp) (auto dest!: map_result_Inl py_float_not_validation)

lemma Viterbi_decode_Inl:
  "Viterbi_decode ext self inp = Inl e \<Longrightarrow>
     check_input (v_soft self) inp = Some e \<or>
     (check_input (v_soft self) inp = None \<and> to_floats inp = Inl e)"
  by (auto simp: Viterbi_decode_def Let_def split: option.splits sum.splits if_splits)

lemma from_library_not_validation: "from_library r = Inl e \<Longrightarrow> \<not> validation_error e"
  by (auto simp: from_library_def validation_error_def split: sum.splits)

lemma py_range_not_validation: "py_range stop step = Inl e \<Longrightarrow> \<not> validation_error e"
  by (auto simp: py_range_def validation_error_def split: if_splits)

lemma decode_loop_not_validation:
  "decode_loop ext self cs acc ok = Inl e \<Longrightarrow> \<not> validation_error e"
proof (induction cs arbitrary: acc ok)
  case Nil
  then show ?case by simp
next
  case (Cons c cs)
  then show ?case
    by (auto simp: Let_def split: sum.splits prod.splits dest: from_library_not_validation)
qed

lemma ReedSolomon_decode_not_validation:
  assumes "ReedSolomon_decode ext self bits = Inl e"
  shows "\<not> validation_error e"
proof (cases "bitstring_to_codewords ext self bits")
  case (Inl e')
  with assms have e: "e' = e" by (simp add: ReedSolomon_decode_def)
  from Inl show ?thesis
    unfolding e bitstring_to_codewords_def Let_def
    by (auto split: sum.splits
        dest!: py_range_not_validation map_result_Inl from_library_not_validation)
next
  case (Inr cws)
  with assms show ?thesis
    by (auto simp: ReedSolomon_decode_def dest: decode_loop_not_validation)
qed

lemma Viterbi_decode_not_validation:
  assumes "check_input (v_soft self) inp = None" "Viterbi_decode ext self inp = Inl e"
  shows "\<not> validation_error e"
  using Viterbi_decode_Inl [OF assms(2)] assms(1) to_floats_not_validation by auto

text \<open>
  C9. \<^verbatim>\<open>Viterbi.decode\<close> and \<^verbatim>\<open>ConcatenatedViterbiRS.decode\<close> raise one of the errors of
  the type checks exactly when the input has the wrong type for the mode. On such an
  input the error is raised whatever the imported calls would do (none is reached), and
  the outcome is the error alone. On an input of the right type neither method raises
  an error of the type checks. (A hard-mode string with a character that \<^verbatim>\<open>float\<close>
  rejects raises the \<^verbatim>\<open>ValueError\<close> of \<^verbatim>\<open>float\<close>, which is not one of them.)
\<close>

theorem decode_type_validation:
  "(wrong_type soft inp \<longrightarrow>
      (\<exists>e. validation_error e \<and>
         (\<forall>ext. Viterbi_decode ext \<lparr>v_k = vk, v_soft = soft\<rparr> inp = Inl e \<and>
                ConcatenatedViterbiRS_decode ext (ConcatenatedViterbiRS_init vk n rsk soft) inp =
                  Inl e)))
   \<and> (\<not> wrong_type soft inp \<longrightarrow>
      (\<forall>ext e. validation_error e \<longrightarrow>
         Viterbi_decode ext \<lparr>v_k = vk, v_soft = soft\<rparr> inp \<noteq> Inl e \<and>
         ConcatenatedViterbiRS_decode ext (ConcatenatedViterbiRS_init vk n rsk soft) inp \<noteq>
           Inl e))"
proof (intro conjI impI)
  assume "wrong_type soft inp"
  then obtain e where e: "check_input soft inp = Some e"
    using check_input_wrong by blast
  have "validation_error e" using e by (rule check_input_validation)
  moreover have "Viterbi_decode ext \<lparr>v_k = vk, v_soft = soft\<rparr> inp = Inl e" for ext
    using e by (simp add: Viterbi_decode_def)
  moreover have
    "ConcatenatedViterbiRS_decode ext (ConcatenatedViterbiRS_init vk n rsk soft) inp = Inl e"
    for ext
    using e by (simp add: ConcatenatedViterbiRS_decode_def ConcatenatedViterbiRS_init_def)
  ultimately show "\<exists>e. validation_error e \<and>
         (\<forall>ext. Viterbi_decode ext \<lparr>v_k = vk, v_soft = soft\<rparr> inp = Inl e \<and>
                ConcatenatedViterbiRS_decode ext (ConcatenatedViterbiRS_init vk n rsk soft) inp =
                  Inl e)"
    by blast
next
  assume "\<not> wrong_type soft inp"
  then have none: "check_input soft inp = None"
    using check_input_wrong [of soft inp] by (cases "check_input soft inp") auto
  show "\<forall>ext e. validation_error e \<longrightarrow>
         Viterbi_decode ext \<lparr>v_k = vk, v_soft = soft\<rparr> inp \<noteq> Inl e \<and>
         ConcatenatedViterbiRS_decode ext (ConcatenatedViterbiRS_init vk n rsk soft) inp \<noteq>
           Inl e"
  proof (intro allI impI conjI)
    fix ext e assume v: "validation_error e"
    show "Viterbi_decode ext \<lparr>v_k = vk, v_soft = soft\<rparr> inp \<noteq> Inl e"
      using Viterbi_decode_not_validation [of "\<lparr>v_k = vk, v_soft = soft\<rparr>" inp ext e] none v
      by auto
    show "ConcatenatedViterbiRS_decode ext (ConcatenatedViterbiRS_init vk n rsk soft) inp \<noteq>
            Inl e"
    proof
      assume a: "ConcatenatedViterbiRS_decode ext (ConcatenatedViterbiRS_init vk n rsk soft) inp =
                   Inl e"
      then consider
          "Viterbi_decode ext \<lparr>v_k = vk, v_soft = soft\<rparr> inp = Inl e"
        | p where "ReedSolomon_decode ext \<lparr>rs_n = n, rs_k = rsk\<rparr> p = Inl e"
        using none
        by (auto simp: ConcatenatedViterbiRS_decode_def ConcatenatedViterbiRS_init_def
            split: sum.splits prod.splits)
      then show False
      proof cases
        case 1
        then show False
          using Viterbi_decode_not_validation [of "\<lparr>v_k = vk, v_soft = soft\<rparr>" inp ext e]
            none v
          by auto
      next
        case 2
        then show False using ReedSolomon_decode_not_validation v by blast
      qed
    qed
  qed
qed

theorem decode_type_validation_witness:
  "Viterbi_decode reference \<lparr>v_k = 5, v_soft = True\<rparr> (PyStr ''0110'') =
     Inl (ValueError ''Input must be a list of floats if using soft decoding.'') \<and>
   ConcatenatedViterbiRS_decode reference (ConcatenatedViterbiRS_init 5 5 3 True) (PyStr ''0110'') =
     Inl (ValueError ''Input must be a list of floats if using soft decoding.'') \<and>
   Viterbi_decode reference \<lparr>v_k = 5, v_soft = False\<rparr> (PyStr ''0110'') \<noteq>
     Inl (ValueError ''Input must be a string of 0s and 1s if using hard decoding.'')"
proof -
  have w: "wrong_type True (PyStr ''0110'')" "\<not> wrong_type False (PyStr ''0110'')"
    by (simp_all add: wrong_type_def)
  have v: "validation_error
             (ValueError ''Input must be a string of 0s and 1s if using hard decoding.'')"
    by (simp add: validation_error_def)
  obtain e where e:
      "Viterbi_decode reference \<lparr>v_k = 5, v_soft = True\<rparr> (PyStr ''0110'') = Inl e"
      "ConcatenatedViterbiRS_decode reference (ConcatenatedViterbiRS_init 5 5 3 True)
         (PyStr ''0110'') = Inl e"
    using decode_type_validation [of True "PyStr ''0110''" 5 5 3] w(1) by blast
  have "Viterbi_decode reference \<lparr>v_k = 5, v_soft = True\<rparr> (PyStr ''0110'') =
     Inl (ValueError ''Input must be a list of floats if using soft decoding.'')"
    by (simp add: Viterbi_decode_def check_input_def)
  with e have "e = ValueError ''Input must be a list of floats if using soft decoding.''"
    by simp
  with e show ?thesis
    using decode_type_validation [of False "PyStr ''0110''" 5 5 3] w(2) v by blast
qed

section \<open>ConcatenatedViterbiRS\<close>

text \<open>
  C5. Whenever \<^verbatim>\<open>ConcatenatedViterbiRS.decode\<close> returns, its bitstring is the one that
  \<^verbatim>\<open>ReedSolomon.decode\<close> returns on the bitstring returned by \<^verbatim>\<open>Viterbi.decode\<close> on the
  same input, and its flag is the conjunction of the two layers' flags; and whenever
  the two layers return in sequence, so does the concatenation.
\<close>

theorem ConcatenatedViterbiRS_decode_composition:
  "(ConcatenatedViterbiRS_decode ext (ConcatenatedViterbiRS_init vk n rsk soft) inp =
      Inr (out, flag)) =
   (\<exists>pred vf rf.
      Viterbi_decode ext \<lparr>v_k = vk, v_soft = soft\<rparr> inp = Inr (pred, vf) \<and>
      ReedSolomon_decode ext \<lparr>rs_n = n, rs_k = rsk\<rparr> pred = Inr (out, rf) \<and>
      flag = (vf \<and> rf))"
proof (cases "check_input soft inp")
  case None
  then show ?thesis
    by (auto simp: ConcatenatedViterbiRS_decode_def ConcatenatedViterbiRS_init_def
        split: sum.splits prod.splits)
next
  case (Some e)
  then have "Viterbi_decode ext \<lparr>v_k = vk, v_soft = soft\<rparr> inp = Inl e"
    by (simp add: Viterbi_decode_def)
  with Some show ?thesis
    by (simp add: ConcatenatedViterbiRS_decode_def ConcatenatedViterbiRS_init_def)
qed

theorem ConcatenatedViterbiRS_decode_composition_witness:
  "ConcatenatedViterbiRS_decode reference (ConcatenatedViterbiRS_init 2 3 1 False)
     (PyStr ''110110111000111011011011100011101101101110001110'') = Inr (''11010010'', True) \<and>
   ConcatenatedViterbiRS_decode reference (ConcatenatedViterbiRS_init 2 3 1 False)
     (PyStr ''1101101'') = Inr (''00000000'', False)"
proof -
  have v1: "Viterbi_decode reference \<lparr>v_k = 2, v_soft = False\<rparr>
              (PyStr ''110110111000111011011011100011101101101110001110'') =
            Inr (''110100101101001011010010'', True)"
    by code_simp
  have r1: "ReedSolomon_decode reference \<lparr>rs_n = 3, rs_k = 1\<rparr> ''110100101101001011010010'' =
            Inr (''11010010'', True)"
    by code_simp
  have v2: "Viterbi_decode reference \<lparr>v_k = 2, v_soft = False\<rparr> (PyStr ''1101101'') =
            Inr (''00000'', False)"
    by code_simp
  have r2: "ReedSolomon_decode reference \<lparr>rs_n = 3, rs_k = 1\<rparr> ''00000'' =
            Inr (''00000000'', False)"
    by code_simp
  show ?thesis
    using ConcatenatedViterbiRS_decode_composition [of reference 2 3 1 False
        "PyStr ''110110111000111011011011100011101101101110001110''" "''11010010''" True]
      ConcatenatedViterbiRS_decode_composition [of reference 2 3 1 False
        "PyStr ''1101101''" "''00000000''" False]
      v1 r1 v2 r2
    by blast
qed

text \<open>
  C6. The claim, like the docstring of \<^verbatim>\<open>ConcatenatedViterbiRS.encode\<close>, has the method
  return two values, the final encoding and the Reed-Solomon encoding. The method
  returns one value, the final encoding: on the eight bits 11010010, with \<open>v_k = 5\<close>,
  \<open>n = 5\<close> and \<open>rs_k = 3\<close>, it returns the Viterbi encoding of the Reed-Solomon
  encoding and not the pair.
\<close>

theorem ConcatenatedViterbiRS_encode_returns_one:
  "ReedSolomon_encode reference \<lparr>rs_n = 5, rs_k = 3\<rparr> ''11010010'' =
     Inr ''1101001000000000000000001101001011010010'' \<and>
   Viterbi_encode reference \<lparr>v_k = 5, v_soft = False\<rparr>
     ''1101001000000000000000001101001011010010'' =
     Inr ''11100000001001100110110000000000000000000000000011100000001001101000110000100110'' \<and>
   ConcatenatedViterbiRS_encode reference (ConcatenatedViterbiRS_init 5 5 3 False) ''11010010'' =
     Inr (One ''11100000001001100110110000000000000000000000000011100000001001101000110000100110'') \<and>
   ConcatenatedViterbiRS_encode reference (ConcatenatedViterbiRS_init 5 5 3 False) ''11010010'' \<noteq>
     Inr (Two ''11100000001001100110110000000000000000000000000011100000001001101000110000100110''
              ''1101001000000000000000001101001011010010'')"
  by code_simp

section \<open>Lists cut into pieces of equal length\<close>

lemma map_result_Inr_iff:
  "map_result f xs = Inr ys \<longleftrightarrow> list_all2 (\<lambda>x y. f x = Inr y) xs ys"
proof (induction xs arbitrary: ys)
  case Nil
  then show ?case by auto
next
  case (Cons x xs)
  show ?case
    by (cases ys) (auto simp: Cons.IH [symmetric] split: sum.splits)
qed

lemma map_result_all_Inr:
  "(\<And>x. x \<in> set xs \<Longrightarrow> f x = Inr (g x)) \<Longrightarrow> map_result f xs = Inr (map g xs)"
  by (induction xs) auto

lemma map_result_map: "map_result f (map g xs) = map_result (\<lambda>x. f (g x)) xs"
  by (induction xs) (auto split: sum.splits)

lemma map_result_total:
  "(\<And>x. x \<in> set xs \<Longrightarrow> \<exists>y. f x = Inr y) \<Longrightarrow> \<exists>ys. map_result f xs = Inr ys"
  by (induction xs) (fastforce split: sum.splits)+

lemma recovered_Inr:
  "RSCoder_decode ext (rs_n self) (rs_k self) c = Inr b \<Longrightarrow>
     recovered ext self c = b \<and> corrected ext self c"
  by (simp add: recovered_def corrected_def)

lemma recovered_Inl:
  "RSCoder_decode ext (rs_n self) (rs_k self) c = Inl m \<Longrightarrow>
     recovered ext self c = py_prefix c (rs_k self) \<and> \<not> corrected ext self c"
  by (simp add: recovered_def corrected_def)

lemma decode_loop_eq:
  "decode_loop ext self cs acc ok =
     (case map_result (\<lambda>c. from_library (ascii_to_bitstring ext (recovered ext self c))) cs of
        Inl e \<Rightarrow> Inl e
      | Inr bs \<Rightarrow> Inr (acc @ concat bs, ok \<and> list_all (corrected ext self) cs))"
proof (induction cs arbitrary: acc ok)
  case Nil
  then show ?case by simp
next
  case (Cons c cs)
  show ?case
    by (cases "RSCoder_decode ext (rs_n self) (rs_k self) c")
       (auto simp: Cons.IH dest!: recovered_Inr recovered_Inl split: sum.splits)
qed

lemma py_range_pos:
  "0 < step \<Longrightarrow> py_range stop step =
     Inr (map (\<lambda>j. j * nat step) [0 ..< (stop + nat step - 1) div nat step])"
  by (simp add: py_range_def)

lemma slices_of_concat:
  assumes "0 < c" "\<And>xs. xs \<in> set xss \<Longrightarrow> length xs = c"
  shows "map (\<lambda>j. take c (drop (j * c) (concat xss))) [0 ..< length xss] = xss"
  using assms(2)
proof (induction xss)
  case Nil
  then show ?case by simp
next
  case (Cons x xss)
  have lx: "length x = c" using Cons.prems by simp
  have "map (\<lambda>j. take c (drop (j * c) (concat (x # xss)))) [0 ..< length (x # xss)] =
        take c (x @ concat xss) #
        map (\<lambda>j. take c (drop (Suc j * c) (x @ concat xss))) [0 ..< length xss]"
    by (simp add: upt_conv_Cons map_Suc_upt [symmetric] del: upt_Suc)
  also have "\<dots> = x # map (\<lambda>j. take c (drop (j * c) (concat xss))) [0 ..< length xss]"
    using lx by simp
  also have "\<dots> = x # xss" using Cons by simp
  finally show ?case .
qed

lemma concat_of_slices:
  assumes "0 < c"
  shows "length xs = m * c \<Longrightarrow>
         concat (map (\<lambda>j. take c (drop (j * c) xs)) [0 ..< m]) = xs"
proof (induction m arbitrary: xs)
  case 0
  then show ?case by simp
next
  case (Suc m)
  have "concat (map (\<lambda>j. take c (drop (j * c) xs)) [0 ..< Suc m]) =
        take c xs @ concat (map (\<lambda>j. take c (drop (j * c) (drop c xs))) [0 ..< m])"
    by (simp add: upt_conv_Cons map_Suc_upt [symmetric] comp_def add.commute del: upt_Suc)
  also have "\<dots> = take c xs @ drop c xs"
    using Suc.IH [of "drop c xs"] Suc.prems by simp
  finally show ?case by simp
qed

lemma length_concat_uniform:
  "(\<And>xs. xs \<in> set xss \<Longrightarrow> length xs = c) \<Longrightarrow> length (concat xss) = length xss * c"
  by (induction xss) auto

lemma range_index_bound:
  fixes k :: nat
  assumes "0 < k" "j < (L + k - 1) div k"
  shows "j * k < L"
proof -
  have "Suc j \<le> (L + k - 1) div k" using assms(2) by simp
  then have "Suc j * k \<le> L + k - 1"
    using assms(1) by (simp add: less_eq_div_iff_mult_less_eq)
  then show ?thesis using assms(1) by simp
qed

lemma padded_length:
  fixes k :: nat
  assumes "0 < k"
  shows "L + (k - L mod k) mod k = ((L + k - 1) div k) * k"
proof (cases "L mod k = 0")
  case True
  then obtain q' where "L = k * q'" by (auto simp: mod_eq_0_iff_dvd)
  then have "L = q' * k" by (simp only: mult.commute)
  then obtain q where q: "L = q * k" ..
  have "(q * k + k - 1) div k = q"
  proof -
    have "q * k + k - 1 = q * k + (k - 1)" using assms by simp
    moreover have "(q * k + (k - 1)) div k = q + (k - 1) div k"
      using assms by (simp only: div_mult_self3)
    moreover have "(k - 1) div k = 0" using assms by simp
    ultimately show ?thesis by simp
  qed
  with True q show ?thesis by simp
next
  case False
  define r where "r = L mod k"
  define q where "q = L div k"
  have L: "L = q * k + r" by (simp add: r_def q_def)
  have r: "0 < r" "r < k" using False assms by (simp_all add: r_def)
  have "(L + k - 1) div k = Suc q"
  proof -
    have "L + k - 1 = Suc q * k + (r - 1)" using L r by simp
    moreover have "(Suc q * k + (r - 1)) div k = Suc q + (r - 1) div k"
      using assms by (simp only: div_mult_self3)
    moreover have "(r - 1) div k = 0" using r by simp
    ultimately show ?thesis by simp
  qed
  moreover have "(k - L mod k) mod k = k - r" using r by (simp add: r_def)
  ultimately show ?thesis using L r by simp
qed

lemma encode_chunk_nat:
  assumes "i \<le> length syms"
  shows "encode_chunk (int k) syms i =
           (if i + k > length syms
            then drop i syms @ replicate (k - (length syms - i)) (CHR 0x00)
            else take k (drop i syms))"
proof -
  have "nat (int k - (int (length syms) - int i)) = k - (length syms - i)"
    using assms by linarith
  moreover have "(int i + int k > int (length syms)) = (i + k > length syms)" by linarith
  ultimately show ?thesis by (simp add: encode_chunk_def)
qed

lemma encode_chunk_length:
  assumes "i \<le> length syms"
  shows "length (encode_chunk (int k) syms i) = k"
  using assms by (simp add: encode_chunk_nat)

lemma encode_chunk_slice:
  fixes k :: nat
  assumes "0 < k" "j * k < length syms"
  shows "encode_chunk (int k) syms (j * k) =
           take k (drop (j * k)
             (syms @ replicate ((k - length syms mod k) mod k) (CHR 0x00)))"
proof (cases "j * k + k > length syms")
  case False
  then show ?thesis using assms by (simp add: encode_chunk_nat)
next
  case True
  define r where "r = length syms - j * k"
  have r: "0 < r" "r < k" "length syms = j * k + r" using True assms by (simp_all add: r_def)
  have "length syms mod k = r" using r by simp
  then have pad: "(k - length syms mod k) mod k = k - r" using r by simp
  show ?thesis
    using True assms r(1,2) unfolding pad
    by (simp add: encode_chunk_nat r_def)
qed

lemma concat_encode_chunks:
  fixes k :: nat
  assumes "0 < k"
  shows "concat (map (\<lambda>j. encode_chunk (int k) syms (j * k))
                   [0 ..< (length syms + k - 1) div k]) =
         syms @ replicate ((k - length syms mod k) mod k) (CHR 0x00)"
proof -
  define p where "p = syms @ replicate ((k - length syms mod k) mod k) (CHR 0x00)"
  define m where "m = (length syms + k - 1) div k"
  have "encode_chunk (int k) syms (j * k) = take k (drop (j * k) p)" if "j < m" for j
    unfolding p_def
    using that assms by (intro encode_chunk_slice range_index_bound) (simp_all add: m_def)
  then have "map (\<lambda>j. encode_chunk (int k) syms (j * k)) [0 ..< m] =
        map (\<lambda>j. take k (drop (j * k) p)) [0 ..< m]"
    by simp
  then have "concat (map (\<lambda>j. encode_chunk (int k) syms (j * k)) [0 ..< m]) =
        concat (map (\<lambda>j. take k (drop (j * k) p)) [0 ..< m])"
    by (rule arg_cong)
  moreover have "length p = m * k"
    using padded_length [OF assms, of "length syms"] by (simp add: p_def m_def)
  then have "concat (map (\<lambda>j. take k (drop (j * k) p)) [0 ..< m]) = p"
    by (rule concat_of_slices [OF assms])
  ultimately have "concat (map (\<lambda>j. encode_chunk (int k) syms (j * k)) [0 ..< m]) = p"
    by (rule trans)
  then show ?thesis unfolding p_def m_def .
qed

section \<open>The loops of ReedSolomon\<close>

lemma from_library_Inr [simp]: "from_library r = Inr v \<longleftrightarrow> r = Inr v"
  by (cases r) (simp_all add: from_library_def)

lemma map_result_from_library:
  "map_result (\<lambda>x. from_library (f x)) xs = Inr ys \<longleftrightarrow> list_all2 (\<lambda>x y. f x = Inr y) xs ys"
  by (simp add: map_result_Inr_iff)

lemma ex_list_all2:
  "(\<And>x. x \<in> set xs \<Longrightarrow> \<exists>y. P x y) \<Longrightarrow> \<exists>ys. list_all2 P xs ys"
proof (induction xs)
  case Nil
  then show ?case by simp
next
  case (Cons x xs)
  then obtain y ys where "P x y" "list_all2 P xs ys" by (meson list.set_intros)
  then have "list_all2 P (x # xs) (y # ys)" by simp
  then show ?case ..
qed

lemma list_all2_map_eq:
  "list_all2 (\<lambda>x y. g y = f x) xs ys \<Longrightarrow> map g ys = map f xs"
  by (induction rule: list_all2_induct) simp_all

lemma list_all2_list_all_right:
  "list_all2 (\<lambda>x y. Q y) xs ys \<Longrightarrow> list_all Q ys"
  by (induction rule: list_all2_induct) simp_all

lemma list_all2_right_ex:
  "list_all2 P xs ys \<Longrightarrow> y \<in> set ys \<Longrightarrow> \<exists>x \<in> set xs. P x y"
  by (induction rule: list_all2_induct) auto

lemma bitstring_take_drop: "bitstring x \<Longrightarrow> bitstring (take a (drop b x))"
  unfolding bitstring_def list_all_iff by (meson in_set_dropD in_set_takeD)

lemma ReedSolomon_encode_Inr:
  assumes "0 < rs_k self"
      and "bitstring_to_ascii ext x = Inr syms"
      and "list_all2
             (\<lambda>j c. RSCoder_encode ext (rs_n self) (rs_k self)
                      (encode_chunk (rs_k self) syms (j * nat (rs_k self))) = Inr c)
             [0 ..< (length syms + nat (rs_k self) - 1) div nat (rs_k self)] cws"
      and "list_all2 (\<lambda>c b. ascii_to_bitstring ext c = Inr b) cws bs"
  shows "ReedSolomon_encode ext self x = Inr (concat bs)"
proof -
  have 1: "map_result
            (\<lambda>i. from_library
                   (RSCoder_encode ext (rs_n self) (rs_k self)
                      (encode_chunk (rs_k self) syms i)))
            (map (\<lambda>j. j * nat (rs_k self))
               [0 ..< (length syms + nat (rs_k self) - 1) div nat (rs_k self)]) = Inr cws"
    unfolding map_result_map map_result_from_library using assms(3) .
  have 2: "map_result (\<lambda>c. from_library (ascii_to_bitstring ext c)) cws = Inr bs"
    unfolding map_result_from_library using assms(4) .
  have 3: "from_library (bitstring_to_ascii ext x) = Inr syms"
    using assms(2) by simp
  show ?thesis
    unfolding ReedSolomon_encode_def codewords_to_bitstring_def 3 py_range_pos [OF assms(1)]
      sum.case 1 2
    by (rule refl)
qed

lemma bitstring_to_codewords_Inr:
  assumes "0 < rs_n self"
      and "list_all2
             (\<lambda>j c. bitstring_to_ascii ext
                      (take (nat (rs_n self * 8)) (drop (j * nat (rs_n self * 8)) x)) = Inr c)
             [0 ..< (length x + nat (rs_n self * 8) - 1) div nat (rs_n self * 8)] cws"
  shows "bitstring_to_codewords ext self x = Inr cws"
proof -
  have pos: "0 < rs_n self * 8" using assms(1) by simp
  have 1: "map_result
            (\<lambda>i. from_library
                   (bitstring_to_ascii ext (take (nat (rs_n self * 8)) (drop i x))))
            (map (\<lambda>j. j * nat (rs_n self * 8))
               [0 ..< (length x + nat (rs_n self * 8) - 1) div nat (rs_n self * 8)]) = Inr cws"
    unfolding map_result_map map_result_from_library using assms(2) .
  show ?thesis
    unfolding bitstring_to_codewords_def Let_def py_range_pos [OF pos] sum.case 1
    by (rule refl)
qed

lemma ReedSolomon_decode_Inr:
  assumes "bitstring_to_codewords ext self x = Inr cws"
      and "list_all2 (\<lambda>c b. ascii_to_bitstring ext (recovered ext self c) = Inr b) cws bs"
  shows "ReedSolomon_decode ext self x = Inr (concat bs, list_all (corrected ext self) cws)"
proof -
  have "map_result (\<lambda>c. from_library (ascii_to_bitstring ext (recovered ext self c))) cws =
          Inr bs"
    unfolding map_result_from_library using assms(2) .
  then show ?thesis
    by (simp add: ReedSolomon_decode_def assms(1) decode_loop_eq)
qed

lemma whole_pieces:
  fixes N :: nat
  assumes "0 < N" "N dvd length x"
  shows "(length x + N - 1) div N = length x div N"
    and "j < length x div N \<Longrightarrow> length (take N (drop (j * N) x)) = N"
proof -
  obtain q' where "length x = N * q'" using assms(2) by (rule dvdE)
  then have "length x = q' * N" by (simp only: mult.commute)
  then obtain q where q: "length x = q * N" ..
  have "q * N + N - 1 = q * N + (N - 1)" using assms(1) by simp
  moreover have "(q * N + (N - 1)) div N = q + (N - 1) div N"
    using assms(1) by (simp only: div_mult_self3)
  moreover have "(N - 1) div N = 0" using assms(1) by simp
  ultimately show "(length x + N - 1) div N = length x div N" using q assms(1) by simp
  assume "j < length x div N"
  then have "Suc j \<le> q" using q assms(1) by simp
  then have "Suc j * N \<le> q * N" by (rule mult_le_mono1)
  then show "length (take N (drop (j * N) x)) = N" using q by simp
qed

lemma ascii_to_bitstring_concat:
  assumes "bitstring_utils_contract ext"
  shows "list_all2 (\<lambda>s b. ascii_to_bitstring ext s = Inr b) ss bs \<Longrightarrow>
         ascii_to_bitstring ext (concat ss) = Inr (concat bs)"
proof (induction rule: list_all2_induct)
  case Nil
  obtain b where "ascii_to_bitstring ext [] = Inr b" "length b = 8 * length ([] :: string)"
    using assms unfolding bitstring_utils_contract_def by blast
  then show ?case by simp
next
  case (Cons s ss b bs)
  have "\<forall>s t a b. ascii_to_bitstring ext s = Inr a \<and> ascii_to_bitstring ext t = Inr b \<longrightarrow>
                 ascii_to_bitstring ext (s @ t) = Inr (a @ b)"
    using assms unfolding bitstring_utils_contract_def by (elim conjE)
  then have "ascii_to_bitstring ext (s @ concat ss) = Inr (b @ concat bs)"
    using Cons.hyps(1) Cons.IH by blast
  then show ?case by simp
qed

section \<open>The instance meets the contracts\<close>

lemma length_byte_bits [simp]: "length (byte_bits c) = 8"
  by (cases c) simp

lemma bitstring_byte_bits [simp]: "bitstring (byte_bits c)"
  by (cases c) (simp add: bitstring_def bit_char_def)

lemma bitstring_append [simp]: "bitstring (a @ b) \<longleftrightarrow> bitstring a \<and> bitstring b"
  by (simp add: bitstring_def)

lemma bitstring_concat_byte_bits [simp]: "bitstring (concat (map byte_bits s))"
  by (induction s) (simp_all add: bitstring_def [of "[]"])

lemma symbol_of_byte_bits [simp]: "symbol_of_bits (byte_bits c) = c"
  by (cases c) (simp add: symbol_of_bits_def bit_char_def)

lemma bit_char_eq: "c = CHR ''0'' \<or> c = CHR ''1'' \<Longrightarrow> bit_char (c = CHR ''1'') = c"
  by (auto simp: bit_char_def)

lemma byte_bits_of_symbol:
  assumes "bitstring g" "length g = 8"
  shows "byte_bits (symbol_of_bits g) = g"
proof -
  obtain c7 c6 c5 c4 c3 c2 c1 c0 where g: "g = [c7, c6, c5, c4, c3, c2, c1, c0]"
    using assms(2) by (auto simp: numeral_eq_Suc length_Suc_conv)
  show ?thesis
    using assms(1) unfolding g by (simp add: symbol_of_bits_def bitstring_def bit_char_eq)
qed

lemma groups_of_8_concat_byte_bits [simp]:
  "groups_of_8 (concat (map byte_bits s)) = map byte_bits s"
proof (induction s)
  case Nil
  then show ?case by (simp add: groups_of_8.simps)
next
  case (Cons c s)
  have "byte_bits c \<noteq> []" by (cases c) simp
  then show ?case
    using Cons by (subst groups_of_8.simps) simp
qed

lemma groups_of_8_bitstring:
  "bitstring s \<Longrightarrow> g \<in> set (groups_of_8 s) \<Longrightarrow> bitstring g"
proof (induction s rule: groups_of_8.induct)
  case (1 s)
  show ?case
  proof (cases "s = []")
    case True
    with "1.prems" show ?thesis by (simp add: groups_of_8.simps)
  next
    case False
    have t: "bitstring (take 8 s)" "bitstring (drop 8 s)"
      using "1.prems"(1) bitstring_take_drop [of s 8 0] bitstring_take_drop [of s "length s" 8]
      by simp_all
    from "1.prems"(2) False have "g = take 8 s \<or> g \<in> set (groups_of_8 (drop 8 s))"
      by (subst (asm) groups_of_8.simps) simp
    then show ?thesis using t "1.IH" [OF False t(2)] by blast
  qed
qed

lemma groups_of_8_whole:
  "8 dvd length s \<Longrightarrow> g \<in> set (groups_of_8 s) \<Longrightarrow> length g = 8"
proof (induction s rule: groups_of_8.induct)
  case (1 s)
  show ?case
  proof (cases "s = []")
    case True
    with "1.prems" show ?thesis by (simp add: groups_of_8.simps)
  next
    case False
    have ge: "8 \<le> length s"
    proof -
      have "0 < length s" using False by simp
      with "1.prems"(1) show ?thesis by (rule dvd_imp_le)
    qed
    then have d: "8 dvd length (drop 8 s)" using "1.prems"(1) by (simp add: dvd_diff_nat)
    from "1.prems"(2) False have "g = take 8 s \<or> g \<in> set (groups_of_8 (drop 8 s))"
      by (subst (asm) groups_of_8.simps) simp
    then show ?thesis using ge "1.IH" [OF False d] by auto
  qed
qed

lemma concat_groups_of_8 [simp]: "concat (groups_of_8 s) = s"
proof (induction s rule: groups_of_8.induct)
  case (1 s)
  show ?case
  proof (cases "s = []")
    case True
    then show ?thesis by (simp add: groups_of_8.simps)
  next
    case False
    then show ?thesis using "1.IH" by (subst groups_of_8.simps) simp
  qed
qed

lemma bitstring_to_ascii_ref_bitstring:
  assumes "bitstring x"
  shows "bitstring_to_ascii_ref x = Inr (map symbol_of_bits (groups_of_8 x))"
  unfolding bitstring_to_ascii_ref_def
  by (rule map_result_all_Inr) (simp add: groups_of_8_bitstring [OF assms])

lemma reference_utils: "bitstring_utils_contract reference"
  unfolding bitstring_utils_contract_def
proof (intro conjI allI impI)
  fix s show "\<exists>b. ascii_to_bitstring reference s = Inr b \<and> length b = 8 * length s \<and> bitstring b"
    by (simp add: reference_def ascii_to_bitstring_ref_def length_concat comp_def sum_list_triv)
next
  fix s t a b
  assume "ascii_to_bitstring reference s = Inr a \<and> ascii_to_bitstring reference t = Inr b"
  then show "ascii_to_bitstring reference (s @ t) = Inr (a @ b)"
    by (auto simp: reference_def ascii_to_bitstring_ref_def)
next
  fix x assume "bitstring x"
  then show "\<exists>s. bitstring_to_ascii reference x = Inr s"
    by (simp add: reference_def bitstring_to_ascii_ref_bitstring)
next
  fix s b assume "ascii_to_bitstring reference s = Inr b"
  then have b: "b = concat (map byte_bits s)"
    by (auto simp: reference_def ascii_to_bitstring_ref_def)
  show "bitstring_to_ascii reference b = Inr s"
    unfolding b by (simp add: reference_def bitstring_to_ascii_ref_bitstring comp_def)
next
  fix x s
  assume a: "bitstring x \<and> 8 dvd length x \<and> bitstring_to_ascii reference x = Inr s"
  then have s: "s = map symbol_of_bits (groups_of_8 x)"
    using bitstring_to_ascii_ref_bitstring [of x] by (simp add: reference_def)
  have "map (\<lambda>g. byte_bits (symbol_of_bits g)) (groups_of_8 x) = map (\<lambda>g. g) (groups_of_8 x)"
    using a by (intro map_cong refl byte_bits_of_symbol)
      (auto intro: groups_of_8_bitstring groups_of_8_whole)
  then have "concat (map byte_bits s) = x"
    unfolding s by (simp add: comp_def)
  then show "ascii_to_bitstring reference s = Inr x"
    by (simp add: reference_def ascii_to_bitstring_ref_def)
qed

lemma reference_systematic:
  assumes "0 \<le> k" "k \<le> n"
  shows "coder_systematic reference n k"
proof -
  have "nat k + nat (n - k) = nat n" using assms by simp
  then show ?thesis
    using assms by (simp add: coder_systematic_def reference_def RSCoder_encode_ref_def)
qed

lemma reference_roundtrip:
  assumes "0 \<le> k" "k \<le> n"
  shows "coder_roundtrip reference n k"
proof -
  have "nat k + nat (n - k) = nat n" using assms by simp
  then show ?thesis
    using assms
    by (simp add: coder_roundtrip_def reference_def RSCoder_encode_ref_def
        RSCoder_decode_ref_def)
qed


section \<open>ReedSolomon.encode\<close>

text \<open>
  C8. For a valid configuration \<open>1 \<le> k < n\<close> and every input bitstring, \<^verbatim>\<open>encode\<close> returns
  the concatenated conversions of codewords \<open>cws\<close> such that: the first \<open>k\<close> symbols of
  the codewords, in order, are the input symbols followed by zero symbols up to the next
  multiple of \<open>k\<close> (so the symbols are cut into groups of \<open>k\<close>, the last one padded on
  the right); every codeword has \<open>n\<close> symbols and is the coder's encoding of its first
  \<open>k\<close> symbols (\<open>k\<close> data symbols, then \<open>n - k\<close> parity symbols); and the length of the
  returned bitstring is the number of codewords times \<open>n * 8\<close>. The imported calls are
  any that meet the contract of the conversions and of a systematic coder.
\<close>

theorem ReedSolomon_encode_layout:
  assumes "1 \<le> rs_k self" "rs_k self < rs_n self"
      and "bitstring_utils_contract ext"
      and "coder_systematic ext (rs_n self) (rs_k self)"
      and "bitstring x"
  shows "\<exists>syms cws bs.
           bitstring_to_ascii ext x = Inr syms \<and>
           concat (map (take (nat (rs_k self))) cws) =
             syms @ replicate
               ((nat (rs_k self) - length syms mod nat (rs_k self)) mod nat (rs_k self))
               (CHR 0x00) \<and>
           list_all (\<lambda>c. length c = nat (rs_n self) \<and>
                         RSCoder_encode ext (rs_n self) (rs_k self) (take (nat (rs_k self)) c) =
                           Inr c) cws \<and>
           list_all2 (\<lambda>c b. ascii_to_bitstring ext c = Inr b) cws bs \<and>
           ReedSolomon_encode ext self x = Inr (concat bs) \<and>
           length (concat bs) = length cws * (nat (rs_n self) * 8)"
proof -
  define k where "k = nat (rs_k self)"
  define n where "n = nat (rs_n self)"
  have k: "0 < k" "rs_k self = int k" using assms(1) by (simp_all add: k_def)
  obtain syms where syms: "bitstring_to_ascii ext x = Inr syms"
    using assms(3,5) unfolding bitstring_utils_contract_def by blast
  define m where "m = (length syms + k - 1) div k"
  define chunk where "chunk j = encode_chunk (rs_k self) syms (j * k)" for j
  have len: "length (chunk j) = k" if "j < m" for j
  proof -
    have "j * k < length syms"
      using that k(1) unfolding m_def by (rule range_index_bound [rotated])
    then show ?thesis unfolding chunk_def k(2) by (intro encode_chunk_length) simp
  qed
  have "\<exists>c. RSCoder_encode ext (rs_n self) (rs_k self) (chunk j) = Inr c \<and>
            length c = n \<and> take k c = chunk j"
    if "j \<in> set [0 ..< m]" for j
  proof -
    have "length (chunk j) = nat (rs_k self)" using len [of j] that by (simp add: k_def)
    then show ?thesis
      using assms(4) unfolding coder_systematic_def k_def n_def by blast
  qed
  then have "\<exists>cws. list_all2 (\<lambda>j c. RSCoder_encode ext (rs_n self) (rs_k self) (chunk j) = Inr c \<and>
                      length c = n \<and> take k c = chunk j) [0 ..< m] cws"
    by (rule ex_list_all2)
  then obtain cws where cws:
    "list_all2 (\<lambda>j c. RSCoder_encode ext (rs_n self) (rs_k self) (chunk j) = Inr c \<and>
                      length c = n \<and> take k c = chunk j) [0 ..< m] cws" ..
  have "\<exists>b. ascii_to_bitstring ext c = Inr b \<and> length b = 8 * length c" for c
    using assms(3) unfolding bitstring_utils_contract_def by blast
  then have "\<exists>bs. list_all2
      (\<lambda>c b. ascii_to_bitstring ext c = Inr b \<and> length b = 8 * length c) cws bs"
    by (intro ex_list_all2)
  then obtain bs where bs:
    "list_all2 (\<lambda>c b. ascii_to_bitstring ext c = Inr b \<and> length b = 8 * length c) cws bs" ..
  have enc: "ReedSolomon_encode ext self x = Inr (concat bs)"
  proof (rule ReedSolomon_encode_Inr [OF _ syms])
    show "0 < rs_k self" using assms(1) by simp
    show "list_all2
       (\<lambda>j c. RSCoder_encode ext (rs_n self) (rs_k self)
                (encode_chunk (rs_k self) syms (j * nat (rs_k self))) = Inr c)
       [0 ..< (length syms + nat (rs_k self) - 1) div nat (rs_k self)] cws"
      using cws unfolding chunk_def m_def k_def by (rule list_all2_mono) simp
    show "list_all2 (\<lambda>c b. ascii_to_bitstring ext c = Inr b) cws bs"
      using bs by (rule list_all2_mono) simp
  qed
  have data: "map (take k) cws = map chunk [0 ..< m]"
    by (rule list_all2_map_eq) (use cws in \<open>rule list_all2_mono\<close>, simp)
  have "concat (map chunk [0 ..< m]) =
          syms @ replicate ((k - length syms mod k) mod k) (CHR 0x00)"
    unfolding chunk_def m_def k(2) by (rule concat_encode_chunks [OF k(1)])
  with data have pad: "concat (map (take k) cws) =
          syms @ replicate ((k - length syms mod k) mod k) (CHR 0x00)"
    by simp
  have all: "list_all (\<lambda>c. length c = n \<and>
               RSCoder_encode ext (rs_n self) (rs_k self) (take k c) = Inr c) cws"
    by (rule list_all2_list_all_right [of _ "[0 ..< m]"])
       (use cws in \<open>rule list_all2_mono\<close>, simp)
  have "length b = n * 8" if b: "b \<in> set bs" for b
  proof -
    obtain c where "c \<in> set cws" "length b = 8 * length c"
      using list_all2_right_ex [OF bs b] by blast
    with all show ?thesis by (auto simp: list_all_iff)
  qed
  then have "length (concat bs) = length bs * (n * 8)"
    by (rule length_concat_uniform)
  moreover have "length bs = length cws" using bs by (simp add: list_all2_lengthD)
  ultimately have lenout: "length (concat bs) = length cws * (n * 8)" by simp
  have bs': "list_all2 (\<lambda>c b. ascii_to_bitstring ext c = Inr b) cws bs"
    using bs by (rule list_all2_mono) simp
  show ?thesis
    using syms pad all bs' enc lenout unfolding k_def n_def
    by (intro exI conjI)
qed

theorem ReedSolomon_encode_layout_witness:
  "ReedSolomon_encode reference \<lparr>rs_n = 5, rs_k = 3\<rparr> ''11010010000000001111111100000001'' =
     Inr ''11010010000000001111111100101101001011010000000100000000000000000000000100000001'' \<and>
   (\<exists>cws. list_all (\<lambda>c. length c = 5) cws \<and>
      concat (map (take 3) cws) =
        [CHR 0xD2, CHR 0x00, CHR 0xFF, CHR 0x01, CHR 0x00, CHR 0x00] \<and>
      length ''11010010000000001111111100101101001011010000000100000000000000000000000100000001'' =
        length cws * (5 * 8))"
proof -
  define rs where "rs = \<lparr>rs_n = 5, rs_k = 3\<rparr>"
  define x where "x = ''11010010000000001111111100000001''"
  define out where
    "out = ''11010010000000001111111100101101001011010000000100000000000000000000000100000001''"
  have e: "ReedSolomon_encode reference rs x = Inr out"
    unfolding rs_def x_def out_def by code_simp
  have s: "bitstring_to_ascii reference x = Inr [CHR 0xD2, CHR 0x00, CHR 0xFF, CHR 0x01]"
    unfolding x_def by code_simp
  have b: "bitstring x" unfolding x_def by code_simp
  have n: "nat (rs_n rs) = 5" "nat (rs_k rs) = 3" "1 \<le> rs_k rs" "rs_k rs < rs_n rs"
    by (simp_all add: rs_def)
  have c: "coder_systematic reference (rs_n rs) (rs_k rs)"
    unfolding rs_def using reference_systematic [of 3 5] by simp
  obtain syms cws bs where
    1: "bitstring_to_ascii reference x = Inr syms"
    and 2: "concat (map (take (nat (rs_k rs))) cws) =
             syms @ replicate ((nat (rs_k rs) - length syms mod nat (rs_k rs)) mod nat (rs_k rs))
               (CHR 0x00)"
    and 3: "list_all (\<lambda>c. length c = nat (rs_n rs) \<and>
               RSCoder_encode reference (rs_n rs) (rs_k rs) (take (nat (rs_k rs)) c) = Inr c) cws"
    and 4: "ReedSolomon_encode reference rs x = Inr (concat bs)"
    and 5: "length (concat bs) = length cws * (nat (rs_n rs) * 8)"
    using ReedSolomon_encode_layout [OF n(3,4) reference_utils c b]
    by (elim exE conjE) (rule that; assumption)
  have syms: "syms = [CHR 0xD2, CHR 0x00, CHR 0xFF, CHR 0x01]" using 1 s by simp
  have o: "concat bs = out" using 4 e by simp
  have "list_all (\<lambda>c. length c = 5) cws"
    using 3 unfolding n by (simp add: list_all_iff)
  moreover have "concat (map (take 3) cws) =
        [CHR 0xD2, CHR 0x00, CHR 0xFF, CHR 0x01, CHR 0x00, CHR 0x00]"
  proof -
    have "(3 - length [CHR 0xD2, CHR 0x00, CHR 0xFF, CHR 0x01] mod 3) mod 3 = (2::nat)"
      by code_simp
    moreover have "replicate 2 (CHR 0x00) = [CHR 0x00, CHR 0x00]" by code_simp
    ultimately show ?thesis using 2 unfolding syms n by simp
  qed
  moreover have "length out = length cws * (5 * 8)"
    using 5 unfolding o n .
  ultimately have "ReedSolomon_encode reference rs x = Inr out \<and>
    (\<exists>cws. list_all (\<lambda>c. length c = 5) cws \<and>
      concat (map (take 3) cws) =
        [CHR 0xD2, CHR 0x00, CHR 0xFF, CHR 0x01, CHR 0x00, CHR 0x00] \<and>
      length out = length cws * (5 * 8))"
    using e by (intro conjI exI)
  then show ?thesis unfolding rs_def x_def out_def .
qed

section \<open>ReedSolomon.decode\<close>



section \<open>ReedSolomon round trip\<close>

text \<open>
  C1. For a valid configuration and every bitstring \<open>x\<close> whose length is a multiple of
  \<open>k * 8\<close>, \<^verbatim>\<open>encode\<close> returns a bitstring on which \<^verbatim>\<open>decode\<close> returns \<open>(x, True)\<close>. The
  imported calls are any that meet the contract of the conversions and for which the
  coder's \<^verbatim>\<open>decode\<close> inverts its \<^verbatim>\<open>encode\<close> on a single unmodified codeword.
\<close>

theorem ReedSolomon_roundtrip:
  assumes "1 \<le> rs_k self" "rs_k self < rs_n self"
      and "bitstring_utils_contract ext"
      and "coder_roundtrip ext (rs_n self) (rs_k self)"
      and "bitstring x"
      and "nat (rs_k self * 8) dvd length x"
  shows "\<exists>enc. ReedSolomon_encode ext self x = Inr enc \<and>
               ReedSolomon_decode ext self enc = Inr (x, True)"
proof -
  define k where "k = nat (rs_k self)"
  define n where "n = nat (rs_n self)"
  define N where "N = nat (rs_n self * 8)"
  have k: "0 < k" "rs_k self = int k" using assms(1) by (simp_all add: k_def)
  have N: "0 < N" "N = n * 8" using assms(1,2) by (simp_all add: N_def n_def nat_mult_distrib)
  have k8: "nat (rs_k self * 8) = k * 8" using assms(1) by (simp add: k_def nat_mult_distrib)
  have dvd8: "8 dvd length x" using assms(6) unfolding k8 by (rule dvd_mult_right)
  obtain syms where syms: "bitstring_to_ascii ext x = Inr syms"
    using assms(3,5) unfolding bitstring_utils_contract_def by blast
  have a2b: "ascii_to_bitstring ext syms = Inr x"
    using assms(3,5) dvd8 syms unfolding bitstring_utils_contract_def by blast
  have lx: "length x = 8 * length syms"
  proof -
    obtain b where "ascii_to_bitstring ext syms = Inr b" "length b = 8 * length syms"
      using assms(3) unfolding bitstring_utils_contract_def by blast
    with a2b show ?thesis by simp
  qed
  have kdvd: "k dvd length syms"
  proof -
    have "k * 8 dvd length syms * 8" using assms(6) lx unfolding k8 by (simp add: mult.commute)
    then show ?thesis by simp
  qed
  define m where "m = (length syms + k - 1) div k"
  define chunk where "chunk j = encode_chunk (rs_k self) syms (j * k)" for j
  have len: "length (chunk j) = k" if "j < m" for j
  proof -
    have "j * k < length syms"
      using that k(1) unfolding m_def by (rule range_index_bound [rotated])
    then show ?thesis unfolding chunk_def k(2) by (intro encode_chunk_length) simp
  qed
  have chunks: "concat (map chunk [0 ..< m]) = syms"
  proof -
    have "length syms mod k = 0" using kdvd by simp
    then have "(k - length syms mod k) mod k = 0" by simp
    then show ?thesis
      unfolding chunk_def m_def k(2) concat_encode_chunks [OF k(1)] by simp
  qed
  have "\<exists>c. RSCoder_encode ext (rs_n self) (rs_k self) (chunk j) = Inr c \<and>
            length c = n \<and> RSCoder_decode ext (rs_n self) (rs_k self) c = Inr (chunk j)"
    if "j \<in> set [0 ..< m]" for j
  proof -
    have "length (chunk j) = nat (rs_k self)" using len [of j] that by (simp add: k_def)
    then show ?thesis
      using assms(4) unfolding coder_roundtrip_def k_def n_def by blast
  qed
  then have "\<exists>cws. list_all2
      (\<lambda>j c. RSCoder_encode ext (rs_n self) (rs_k self) (chunk j) = Inr c \<and>
             length c = n \<and> RSCoder_decode ext (rs_n self) (rs_k self) c = Inr (chunk j))
      [0 ..< m] cws"
    by (rule ex_list_all2)
  then obtain cws where cws: "list_all2
      (\<lambda>j c. RSCoder_encode ext (rs_n self) (rs_k self) (chunk j) = Inr c \<and>
             length c = n \<and> RSCoder_decode ext (rs_n self) (rs_k self) c = Inr (chunk j))
      [0 ..< m] cws" ..
  have "\<exists>b. ascii_to_bitstring ext c = Inr b \<and> length b = 8 * length c" for c
    using assms(3) unfolding bitstring_utils_contract_def by blast
  then have "\<exists>bs. list_all2
      (\<lambda>c b. ascii_to_bitstring ext c = Inr b \<and> length b = 8 * length c) cws bs"
    by (intro ex_list_all2)
  then obtain bs where bs:
    "list_all2 (\<lambda>c b. ascii_to_bitstring ext c = Inr b \<and> length b = 8 * length c) cws bs" ..
  have enc: "ReedSolomon_encode ext self x = Inr (concat bs)"
  proof (rule ReedSolomon_encode_Inr [OF _ syms])
    show "0 < rs_k self" using assms(1) by simp
    show "list_all2
       (\<lambda>j c. RSCoder_encode ext (rs_n self) (rs_k self)
                (encode_chunk (rs_k self) syms (j * nat (rs_k self))) = Inr c)
       [0 ..< (length syms + nat (rs_k self) - 1) div nat (rs_k self)] cws"
      using cws unfolding chunk_def m_def k_def by (rule list_all2_mono) simp
    show "list_all2 (\<lambda>c b. ascii_to_bitstring ext c = Inr b) cws bs"
      using bs by (rule list_all2_mono) simp
  qed
  have lcws: "length cws = m" using cws by (simp add: list_all2_lengthD [symmetric])
  have lbs: "length bs = m" using bs lcws by (simp add: list_all2_lengthD [symmetric])
  have lenc: "length c = n" if c: "c \<in> set cws" for c
    using list_all2_right_ex [OF cws c] by blast
  have lenb: "length b = N" if b: "b \<in> set bs" for b
  proof -
    obtain c where "c \<in> set cws" "length b = 8 * length c"
      using list_all2_right_ex [OF bs b] by blast
    then show ?thesis using lenc N(2) by simp
  qed
  have lout: "length (concat bs) = m * N"
    using length_concat_uniform [of bs N] lenb lbs by simp
  have pieces: "map (\<lambda>j. take N (drop (j * N) (concat bs))) [0 ..< m] = bs"
    using slices_of_concat [OF N(1), of bs] lenb lbs by simp
  have count: "(length (concat bs) + N - 1) div N = m"
  proof -
    have "N dvd length (concat bs)" using lout by simp
    then have "(length (concat bs) + N - 1) div N = length (concat bs) div N"
      by (rule whole_pieces(1) [OF N(1)])
    then show ?thesis using lout N(1) by simp
  qed
  have inv: "list_all2 (\<lambda>b c. bitstring_to_ascii ext b = Inr c) bs cws"
  proof -
    have "list_all2 (\<lambda>c b. bitstring_to_ascii ext b = Inr c) cws bs"
      using bs
    proof (rule list_all2_mono)
      fix c b assume "ascii_to_bitstring ext c = Inr b \<and> length b = 8 * length c"
      then show "bitstring_to_ascii ext b = Inr c"
        using assms(3) unfolding bitstring_utils_contract_def by blast
    qed
    then show ?thesis by (simp add: list_all2_conv_all_nth)
  qed
  have cw: "bitstring_to_codewords ext self (concat bs) = Inr cws"
  proof (rule bitstring_to_codewords_Inr)
    show "0 < rs_n self" using assms(1,2) by simp
    have "list_all2 (\<lambda>b c. bitstring_to_ascii ext b = Inr c)
            (map (\<lambda>j. take N (drop (j * N) (concat bs))) [0 ..< m]) cws"
      unfolding pieces by (rule inv)
    then show "list_all2
       (\<lambda>j c. bitstring_to_ascii ext
                (take (nat (rs_n self * 8)) (drop (j * nat (rs_n self * 8)) (concat bs))) =
              Inr c)
       [0 ..< (length (concat bs) + nat (rs_n self * 8) - 1) div nat (rs_n self * 8)] cws"
      unfolding N_def [symmetric] count by (simp add: list_all2_map1)
  qed
  have rec: "recovered ext self c = chunk j \<and> corrected ext self c"
    if "RSCoder_decode ext (rs_n self) (rs_k self) c = Inr (chunk j)" for c j
    using that by (rule recovered_Inr)
  have "\<exists>d. ascii_to_bitstring ext (chunk j) = Inr d" for j
    using assms(3) unfolding bitstring_utils_contract_def by blast
  then have "\<exists>ds. list_all2 (\<lambda>j d. ascii_to_bitstring ext (chunk j) = Inr d) [0 ..< m] ds"
    by (intro ex_list_all2)
  then obtain ds where ds:
    "list_all2 (\<lambda>j d. ascii_to_bitstring ext (chunk j) = Inr d) [0 ..< m] ds" ..
  have recs: "list_all2 (\<lambda>j c. recovered ext self c = chunk j \<and> corrected ext self c)
                [0 ..< m] cws"
    using cws by (rule list_all2_mono) (simp add: rec)
  have allc: "list_all (corrected ext self) cws"
    by (rule list_all2_list_all_right [of _ "[0 ..< m]"])
       (use recs in \<open>rule list_all2_mono\<close>, simp)
  have "map (recovered ext self) cws = map chunk [0 ..< m]"
    by (rule list_all2_map_eq) (use recs in \<open>rule list_all2_mono\<close>, simp)
  then have "list_all2 (\<lambda>s d. ascii_to_bitstring ext s = Inr d) (map (recovered ext self) cws) ds"
    using ds by (simp add: list_all2_map1)
  then have dec0: "list_all2 (\<lambda>c d. ascii_to_bitstring ext (recovered ext self c) = Inr d) cws ds"
    by (simp add: list_all2_map1)
  have dec: "ReedSolomon_decode ext self (concat bs) = Inr (concat ds, True)"
    using ReedSolomon_decode_Inr [OF cw dec0] allc by simp
  have "list_all2 (\<lambda>s d. ascii_to_bitstring ext s = Inr d) (map chunk [0 ..< m]) ds"
    using ds by (simp add: list_all2_map1)
  then have "ascii_to_bitstring ext (concat (map chunk [0 ..< m])) = Inr (concat ds)"
    by (rule ascii_to_bitstring_concat [OF assms(3)])
  then have "concat ds = x" using a2b unfolding chunks by simp
  with enc dec show ?thesis by blast
qed

theorem ReedSolomon_roundtrip_witness:
  "ReedSolomon_encode reference \<lparr>rs_n = 5, rs_k = 3\<rparr> ''110100100000000000000000'' =
     Inr ''1101001000000000000000001101001011010010'' \<and>
   ReedSolomon_decode reference \<lparr>rs_n = 5, rs_k = 3\<rparr>
     ''1101001000000000000000001101001011010010'' =
     Inr (''110100100000000000000000'', True)"
proof -
  have e: "ReedSolomon_encode reference \<lparr>rs_n = 5, rs_k = 3\<rparr> ''110100100000000000000000'' =
     Inr ''1101001000000000000000001101001011010010''"
    by code_simp
  have b: "bitstring ''110100100000000000000000''" by code_simp
  have d: "nat (rs_k \<lparr>rs_n = 5, rs_k = 3\<rparr> * 8) dvd length ''110100100000000000000000''"
    by code_simp
  obtain enc where
    "ReedSolomon_encode reference \<lparr>rs_n = 5, rs_k = 3\<rparr> ''110100100000000000000000'' = Inr enc"
    "ReedSolomon_decode reference \<lparr>rs_n = 5, rs_k = 3\<rparr> enc =
       Inr (''110100100000000000000000'', True)"
    using ReedSolomon_roundtrip [of "\<lparr>rs_n = 5, rs_k = 3\<rparr>" reference
        "''110100100000000000000000''", OF _ _ reference_utils _ b d]
      reference_roundtrip [of 3 5]
    by auto
  with e show ?thesis by simp
qed

section \<open>The conversions of Viterbi.encode and Viterbi.decode\<close>

lemma py_str_bit: "py_str 0 = ''0''" "py_str 1 = ''1''"
  by code_simp+

lemma map_result_py_int:
  "bitstring x \<Longrightarrow> map_result py_int x = Inr (map bit_of x)"
  by (induction x) (auto simp: bitstring_def py_int_def is_digit_def bit_of_def)

lemma binary_bit_of: "binary (map bit_of x)"
  by (induction x) (simp_all add: binary_def bit_of_def)

lemma py_str_bit_of: "bitstring x \<Longrightarrow> concat (map py_str (map bit_of x)) = x"
  by (induction x) (auto simp: bitstring_def bit_of_def py_str_bit)

lemma written_floats:
  assumes "binary (map fst out)" "binary (map snd out)"
  shows "map_result py_float (written out) =
           Inr (concat (map (\<lambda>p. [real_of_int (fst p), real_of_int (snd p)]) out))"
  using assms
  by (induction out)
     (auto simp: written_def binary_def py_str_bit py_float_def is_digit_def)

lemma pair_up_concat:
  "pair_up (concat (map (\<lambda>p. [f p, g p]) out)) = map (\<lambda>p. (f p, g p)) out"
  by (induction out) simp_all

lemma length_concat_pairs: "length (concat (map (\<lambda>p. [f p, g p]) out)) = 2 * length out"
  by (induction out) simp_all

section \<open>The instance's decoder inverts its encoder\<close>

lemma tap_xor_flip: "tap_xor (True # g) (True # st) \<noteq> tap_xor (True # g) (False # st)"
  by (simp add: tap_xor_def)

lemma tap_xor_binary: "tap_xor g reg = 0 \<or> tap_xor g reg = 1"
  by (simp add: tap_xor_def)

lemma conv_output_inj:
  assumes "fst g = True # g'" "b = 0 \<or> b = 1" "b' = 0 \<or> b' = 1"
      and "conv_output g st b = conv_output g st b'"
  shows "b = b'"
  using assms tap_xor_flip [of g' st] by (auto simp: conv_output_def)

lemma branch_metric_hard_nonneg: "0 \<le> branch_metric True e r"
  by (simp add: branch_metric_def)

lemma branch_metric_hard_zero:
  "branch_metric True e (real_of_int a, real_of_int b) = 0 \<longleftrightarrow> e = (a, b)"
  by (cases e) (auto simp: branch_metric_def)

lemma relax_subset: "set (relax c T) \<subseteq> insert c (set T)"
  by (induction T) auto

lemma relax_new: "\<exists>d \<in> set (relax c T). fst d = fst c \<and> fst (snd d) \<le> fst (snd c)"
  by (induction T) auto

lemma relax_old:
  "d \<in> set T \<Longrightarrow> \<exists>d' \<in> set (relax c T). fst d' = fst d \<and> fst (snd d') \<le> fst (snd d)"
proof (induction T)
  case Nil
  then show ?case by simp
next
  case (Cons a T)
  show ?case
  proof (cases "d = a")
    case True
    then show ?thesis by (auto intro: less_imp_le)
  next
    case False
    with Cons show ?thesis by auto
  qed
qed

lemma fold_relax_subset: "set (foldl (\<lambda>t c. relax c t) T cs) \<subseteq> set cs \<union> set T"
proof (induction cs arbitrary: T)
  case Nil
  then show ?case by simp
next
  case (Cons c cs)
  show ?case using Cons [of "relax c T"] relax_subset [of c T] by auto
qed

lemma fold_relax_old:
  "d \<in> set T \<Longrightarrow>
   \<exists>d' \<in> set (foldl (\<lambda>t c. relax c t) T cs). fst d' = fst d \<and> fst (snd d') \<le> fst (snd d)"
proof (induction cs arbitrary: T d)
  case Nil
  then show ?case by auto
next
  case (Cons c cs)
  obtain d1 where d1: "d1 \<in> set (relax c T)" "fst d1 = fst d" "fst (snd d1) \<le> fst (snd d)"
    using relax_old [OF Cons.prems] by blast
  obtain d2 where "d2 \<in> set (foldl (\<lambda>t c. relax c t) (relax c T) cs)"
      "fst d2 = fst d1" "fst (snd d2) \<le> fst (snd d1)"
    using Cons.IH [OF d1(1)] by blast
  with d1 show ?case by (auto intro!: bexI [of _ d2])
qed

lemma fold_relax_new:
  "c \<in> set cs \<Longrightarrow>
   \<exists>d \<in> set (foldl (\<lambda>t c. relax c t) T cs). fst d = fst c \<and> fst (snd d) \<le> fst (snd c)"
proof (induction cs arbitrary: T)
  case Nil
  then show ?case by simp
next
  case (Cons a cs)
  show ?case
  proof (cases "c = a")
    case True
    obtain d1 where d1: "d1 \<in> set (relax c T)" "fst d1 = fst c" "fst (snd d1) \<le> fst (snd c)"
      using relax_new [of c T] by blast
    obtain d2 where "d2 \<in> set (foldl (\<lambda>t c. relax c t) (relax c T) cs)"
        "fst d2 = fst d1" "fst (snd d2) \<le> fst (snd d1)"
      using fold_relax_old [OF d1(1)] by blast
    with d1 True show ?thesis by (auto intro!: bexI [of _ d2])
  next
    case False
    with Cons show ?thesis by auto
  qed
qed

lemma best_in: "best c cs \<in> set (c # cs)"
  by (induction cs arbitrary: c) auto

lemma best_least: "d \<in> set (c # cs) \<Longrightarrow> fst (snd (best c cs)) \<le> fst (snd d)"
proof (induction cs arbitrary: c d)
  case Nil
  then show ?case by simp
next
  case (Cons a cs)
  let ?c' = "if fst (snd a) < fst (snd c) then a else c"
  have le: "fst (snd (best ?c' cs)) \<le> fst (snd ?c')"
    using Cons.IH [of ?c' ?c'] by simp
  show ?case
  proof (cases "d \<in> set cs")
    case True
    then show ?thesis using Cons.IH [of d ?c'] by simp
  next
    case False
    with Cons.prems have "d = c \<or> d = a" by auto
    then show ?thesis using le by (auto split: if_splits)
  qed
qed

lemma consistentD:
  assumes "consistent p s T" "c \<in> set T"
  shows "0 \<le> fst (snd c)" "fst (snd c) = 0 \<Longrightarrow> snd (snd c) = p \<and> fst c = s"
  using assms by (auto simp: consistent_def list_all_iff)

lemma consistent_zero:
  assumes "consistent p s T"
  obtains c where "c \<in> set T" "fst (snd c) = 0" "snd (snd c) = p" "fst c = s"
  using assms by (auto simp: consistent_def list_all_iff list_ex_iff)

lemma consistentI:
  assumes "\<And>c. c \<in> set T \<Longrightarrow> 0 \<le> fst (snd c)"
      and "\<And>c. c \<in> set T \<Longrightarrow> fst (snd c) = 0 \<Longrightarrow> snd (snd c) = p \<and> fst c = s"
      and "c0 \<in> set T" "fst (snd c0) = 0"
  shows "consistent p s T"
  using assms unfolding consistent_def list_all_iff list_ex_iff by blast

lemma stage_consistent:
  assumes T: "consistent p0 s0 T" and g: "fst g = True # g'" and b: "b = 0 \<or> b = 1"
  shows "consistent (p0 @ [b]) (conv_next s0 b)
           (viterbi_stage g True T
              (real_of_int (fst (conv_output g s0 b)), real_of_int (snd (conv_output g s0 b))))"
proof -
  define obs where
    "obs = (real_of_int (fst (conv_output g s0 b)), real_of_int (snd (conv_output g s0 b)))"
  define cands where
    "cands = concat (map (\<lambda>c. [extend g True obs c 0, extend g True obs c 1]) T)"
  have R: "viterbi_stage g True T obs = foldl (\<lambda>t c. relax c t) [] cands"
    by (simp add: viterbi_stage_def cands_def)
  have cand: "\<exists>c \<in> set T. \<exists>b'. (b' = 0 \<or> b' = 1) \<and> c' = extend g True obs c b'"
    if "c' \<in> set cands" for c'
    using that unfolding cands_def by auto
  have A1: "0 \<le> fst (snd c')" if c': "c' \<in> set cands" for c'
  proof -
    obtain c b' where c: "c \<in> set T" "c' = extend g True obs c b'"
      using cand [OF c'] by blast
    show ?thesis
      unfolding c(2) extend_def
      using consistentD(1) [OF T c(1)] branch_metric_hard_nonneg by simp
  qed
  have A2: "snd (snd c') = p0 @ [b] \<and> fst c' = conv_next s0 b"
    if c': "c' \<in> set cands" and z: "fst (snd c') = 0" for c'
  proof -
    obtain c b' where c: "c \<in> set T" "b' = 0 \<or> b' = 1" "c' = extend g True obs c b'"
      using cand [OF c'] by blast
    have sum: "fst (snd c) + branch_metric True (conv_output g (fst c) b') obs = 0"
      using z unfolding c(3) extend_def by simp
    have m0: "fst (snd c) = 0" and bm0: "branch_metric True (conv_output g (fst c) b') obs = 0"
      using sum consistentD(1) [OF T c(1)]
        branch_metric_hard_nonneg [of "conv_output g (fst c) b'" obs]
      by linarith+
    have pc: "snd (snd c) = p0" "fst c = s0" using consistentD(2) [OF T c(1) m0] by simp_all
    have "conv_output g s0 b' = conv_output g s0 b"
      using bm0 unfolding obs_def pc(2) branch_metric_hard_zero by simp
    then have "b' = b" using conv_output_inj [OF g c(2) b] by simp
    then show ?thesis unfolding c(3) extend_def using pc by simp
  qed
  obtain c where c: "c \<in> set T" "fst (snd c) = 0" "snd (snd c) = p0" "fst c = s0"
    using T by (rule consistent_zero)
  have "extend g True obs c b \<in> set cands"
    unfolding cands_def using c(1) b by auto
  moreover have "fst (snd (extend g True obs c b)) = 0"
    unfolding extend_def obs_def using c(2,4) by (simp add: branch_metric_hard_zero)
  ultimately obtain d where d: "d \<in> set (foldl (\<lambda>t c. relax c t) [] cands)" "fst (snd d) \<le> 0"
    using fold_relax_new [of "extend g True obs c b" cands "[]"] by auto
  have sub: "set (foldl (\<lambda>t c. relax c t) [] cands) \<subseteq> set cands"
    using fold_relax_subset [of "[]" cands] by simp
  have d0: "fst (snd d) = 0" using d A1 [of d] sub by force
  have "consistent (p0 @ [b]) (conv_next s0 b) (foldl (\<lambda>t c. relax c t) [] cands)"
    using sub A1 A2 d(1) d0 by (intro consistentI [of _ _ _ d]) auto
  then show ?thesis unfolding R [symmetric] obs_def .
qed

lemma run_consistent:
  assumes g: "fst g = True # g'"
  shows "consistent p0 s0 T \<Longrightarrow> binary bits \<Longrightarrow>
         \<exists>s. consistent (p0 @ bits) s
               (foldl (viterbi_stage g True) T
                  (map (\<lambda>p. (real_of_int (fst p), real_of_int (snd p))) (conv_run g s0 bits)))"
proof (induction bits arbitrary: p0 s0 T)
  case Nil
  then show ?case by auto
next
  case (Cons b bits)
  have b: "b = 0 \<or> b = 1" and bits: "binary bits"
    using Cons.prems(2) by (simp_all add: binary_def)
  have "consistent (p0 @ [b]) (conv_next s0 b)
           (viterbi_stage g True T
              (real_of_int (fst (conv_output g s0 b)), real_of_int (snd (conv_output g s0 b))))"
    using Cons.prems(1) g b by (rule stage_consistent)
  from Cons.IH [OF this bits] show ?case by simp
qed

lemma Decoder_ref_run:
  assumes "generators k = Some g" "fst g = True # g'" "binary bits"
  shows "Decoder_ref k
           (map (\<lambda>p. (real_of_int (fst p), real_of_int (snd p)))
              (conv_run g (replicate (nat k - 1) False) bits)) True = Inr bits"
proof -
  define T where
    "T = foldl (viterbi_stage g True) [(replicate (nat k - 1) False, 0, [])]
           (map (\<lambda>p. (real_of_int (fst p), real_of_int (snd p)))
              (conv_run g (replicate (nat k - 1) False) bits))"
  have "consistent [] (replicate (nat k - 1) False) [(replicate (nat k - 1) False, 0, [])]"
    by (simp add: consistent_def)
  from run_consistent [OF assms(2) this assms(3)]
  obtain s where s: "consistent bits s T" unfolding T_def by auto
  obtain z where z: "z \<in> set T" "fst (snd z) = 0" using s by (rule consistent_zero)
  then obtain c cs where T: "T = c # cs" by (cases T) auto
  have "best c cs \<in> set T" unfolding T by (rule best_in)
  moreover have "fst (snd (best c cs)) \<le> 0"
    using best_least [of z c cs] z unfolding T by simp
  ultimately have "snd (snd (best c cs)) = bits"
    using consistentD [OF s, of "best c cs"] by force
  then show ?thesis
    unfolding Decoder_ref_def assms(1) option.case T_def [symmetric] T by simp
qed

lemma length_conv_run [simp]: "length (conv_run g st bits) = length bits"
  by (induction bits arbitrary: st) simp_all

lemma binary_conv_run:
  "binary (map fst (conv_run g st bits))" "binary (map snd (conv_run g st bits))"
  by (induction bits arbitrary: st)
     (simp_all add: binary_def conv_output_def tap_xor_binary)

lemma reference_viterbi:
  assumes "k = 2 \<or> k = 5"
  shows "viterbi_contract reference k"
proof -
  obtain g g' where g: "generators k = Some g" "fst g = True # g'"
    using assms by auto
  show ?thesis
    unfolding viterbi_contract_def
  proof (intro allI impI)
    fix bits assume "binary bits \<and> k \<le> 2 * int (length bits)"
    then have "binary bits" ..
    then have "Decoder reference k
           (map (\<lambda>p. (real_of_int (fst p), real_of_int (snd p)))
              (conv_run g (replicate (nat k - 1) False) bits)) True = Inr bits"
      using Decoder_ref_run [OF g] by (simp add: reference_def)
    moreover have "stream_encoder reference k bits =
                     Inr (conv_run g (replicate (nat k - 1) False) bits)"
      by (simp add: reference_def stream_encoder_ref_def g(1) del: generators.simps)
    ultimately show "\<exists>out. stream_encoder reference k bits = Inr out \<and>
        length out = length bits \<and> binary (map fst out) \<and> binary (map snd out) \<and>
        Decoder reference k (map (\<lambda>p. (real_of_int (fst p), real_of_int (snd p))) out) True =
          Inr bits"
      using binary_conv_run [of g "replicate (nat k - 1) False" bits] by simp
  qed
qed

section \<open>Viterbi round trip\<close>

text \<open>
  C2, as amended. For every bitstring \<open>x\<close> with \<open>k \<le> 2 * len(x)\<close>, the hard-mode
  \<^verbatim>\<open>decode\<close> returns \<open>(x, True)\<close> on the unmodified result of \<^verbatim>\<open>encode\<close>. The imported
  calls are any for which \<^verbatim>\<open>stream_encoder\<close> returns one pair of bits per input bit and
  the hard-decision \<^verbatim>\<open>Decoder\<close> returns the input bits on the unmodified pairs.
\<close>

theorem Viterbi_roundtrip:
  assumes "\<not> v_soft self"
      and "viterbi_contract ext (v_k self)"
      and "bitstring x"
      and "v_k self \<le> 2 * int (length x)"
  shows "\<exists>e. Viterbi_encode ext self x = Inr e \<and>
             Viterbi_decode ext self (PyStr e) = Inr (x, True)"
proof -
  define bits where "bits = map bit_of x"
  have bits: "map_result py_int x = Inr bits" "binary bits" "length bits = length x"
    using assms(3) by (simp_all add: bits_def map_result_py_int binary_bit_of)
  obtain out where out: "stream_encoder ext (v_k self) bits = Inr out"
      "length out = length bits" "binary (map fst out)" "binary (map snd out)"
      "Decoder ext (v_k self) (map (\<lambda>p. (real_of_int (fst p), real_of_int (snd p))) out) True =
         Inr bits"
  proof -
    have "binary bits \<and> v_k self \<le> 2 * int (length bits)" using bits assms(4) by simp
    then have "\<exists>out. stream_encoder ext (v_k self) bits = Inr out \<and> length out = length bits \<and>
              binary (map fst out) \<and> binary (map snd out) \<and>
              Decoder ext (v_k self)
                (map (\<lambda>p. (real_of_int (fst p), real_of_int (snd p))) out) True = Inr bits"
      using assms(2) unfolding viterbi_contract_def by (elim allE [of _ bits] impE)
    then show ?thesis by (elim exE conjE) (rule that; assumption)
  qed
  have enc: "Viterbi_encode ext self x = Inr (written out)"
    by (simp add: Viterbi_encode_def bits(1) out(1) from_library_def written_def)
  define floats where
    "floats = concat (map (\<lambda>p. [real_of_int (fst p), real_of_int (snd p)]) out)"
  have fl: "map_result py_float (written out) = Inr floats"
    unfolding floats_def using out(3,4) by (rule written_floats)
  have len: "length floats = 2 * length x"
    unfolding floats_def length_concat_pairs using out(2) bits(3) by simp
  have pairs: "pair_up floats = map (\<lambda>p. (real_of_int (fst p), real_of_int (snd p))) out"
    unfolding floats_def by (rule pair_up_concat)
  have ok: "\<not> (length floats mod 2 \<noteq> 0 \<or> int (length floats) < v_k self)"
    using len assms(4) by simp
  have "Viterbi_decode ext self (PyStr (written out)) = Inr (concat (map py_str bits), True)"
    unfolding Viterbi_decode_def Let_def
    using assms(1) ok by (simp add: check_input_def fl pairs out(5))
  then have "Viterbi_decode ext self (PyStr (written out)) = Inr (x, True)"
    using py_str_bit_of [OF assms(3)] by (simp add: bits_def)
  with enc show ?thesis by (intro exI conjI)
qed

theorem Viterbi_roundtrip_witness:
  "Viterbi_encode reference \<lparr>v_k = 5, v_soft = False\<rparr> ''1010'' = Inr ''11011011'' \<and>
   Viterbi_decode reference \<lparr>v_k = 5, v_soft = False\<rparr> (PyStr ''11011011'') =
     Inr (''1010'', True)"
proof -
  define v where "v = \<lparr>v_k = 5, v_soft = False\<rparr>"
  have e: "Viterbi_encode reference v ''1010'' = Inr ''11011011''"
    unfolding v_def by code_simp
  have h: "\<not> v_soft v" "viterbi_contract reference (v_k v)" "bitstring ''1010''"
      "v_k v \<le> 2 * int (length ''1010'')"
    unfolding v_def using reference_viterbi [of 5] by (simp_all add: bitstring_def)
  obtain enc where "Viterbi_encode reference v ''1010'' = Inr enc"
      "Viterbi_decode reference v (PyStr enc) = Inr (''1010'', True)"
    using Viterbi_roundtrip [OF h] by (elim exE conjE) (rule that; assumption)
  with e have "Viterbi_encode reference v ''1010'' = Inr ''11011011'' \<and>
    Viterbi_decode reference v (PyStr ''11011011'') = Inr (''1010'', True)"
    by simp
  then show ?thesis unfolding v_def .
qed

text \<open>
  C2 is stated for every bitstring, but \<^verbatim>\<open>decode\<close> does not call the decoder on an
  input shorter than \<open>k\<close>: with \<open>k = 5\<close> the bitstring 1 is encoded as 11, on which
  \<^verbatim>\<open>decode\<close> returns the empty string and \<open>False\<close>; with \<open>k = 2\<close> the empty bitstring
  is encoded as the empty string, on which \<^verbatim>\<open>decode\<close> returns the flag \<open>False\<close>.
\<close>

theorem Viterbi_roundtrip_counterexample:
  "bitstring ''1'' \<and>
   Viterbi_encode reference \<lparr>v_k = 5, v_soft = False\<rparr> ''1'' = Inr ''11'' \<and>
   Viterbi_decode reference \<lparr>v_k = 5, v_soft = False\<rparr> (PyStr ''11'') = Inr ([], False) \<and>
   Viterbi_decode reference \<lparr>v_k = 5, v_soft = False\<rparr> (PyStr ''11'') \<noteq> Inr (''1'', True) \<and>
   Viterbi_encode reference \<lparr>v_k = 2, v_soft = False\<rparr> [] = Inr [] \<and>
   Viterbi_decode reference \<lparr>v_k = 2, v_soft = False\<rparr> (PyStr []) = Inr ([], False) \<and>
   Viterbi_decode reference \<lparr>v_k = 2, v_soft = False\<rparr> (PyStr []) \<noteq> Inr ([], True)"
  by code_simp

end
